theory Spec2Isabelle
  imports Main
begin

section \<open>Machine integers\<close>

text \<open>
  \<^verbatim>\<open>size_t\<close> is taken as the 64-bit unsigned type and \<^verbatim>\<open>int\<close> as the 32-bit signed
  type. Sizes and offsets are natural numbers in the model; the two places where the
  source leaves the mathematical integers are written out: arithmetic in \<^verbatim>\<open>size_t\<close>
  wraps modulo \<open>2 ^ 64\<close>, and \<^verbatim>\<open>int pos_num = pos - begin()\<close> narrows a pointer
  difference to 32 bits.
\<close>

definition size_t :: "int \<Rightarrow> nat" where
  "size_t i = nat (i mod 2 ^ 64)"

definition to_int :: "int \<Rightarrow> int" where
  "to_int d = (d + 2 ^ 31) mod 2 ^ 32 - 2 ^ 31"

section \<open>Outcomes of a call\<close>

text \<open>
  A call returns (\<open>Done\<close>, with its result and the state it leaves), leaves by a C++
  exception (\<open>Thrown\<close>, with the state after unwinding), or stops the program: a failed
  \<^verbatim>\<open>assert\<close>, or behaviour the language leaves undefined (\<open>Fault\<close>, no state).
\<close>

datatype exn = Bad_Alloc | Elem_Exception

datatype fault = Assertion_Failed | Undefined_Behaviour

datatype ('r, 's) result = Done 'r 's | Thrown exn 's | Fault fault

type_synonym ('r, 's) comp = "'s \<Rightarrow> ('r, 's) result"

definition ret :: "'r \<Rightarrow> ('r, 's) comp" where
  "ret r s = Done r s"

definition bind :: "('r, 's) comp \<Rightarrow> ('r \<Rightarrow> ('q, 's) comp) \<Rightarrow> ('q, 's) comp" where
  "bind m f s = (case m s of Done r s' \<Rightarrow> f r s' | Thrown e s' \<Rightarrow> Thrown e s' | Fault x \<Rightarrow> Fault x)"

text \<open>
  \<open>unwinding m cleanup\<close>: when \<open>m\<close> throws, the destructors of the locals in scope
  (\<open>cleanup\<close>) run and the exception goes on to the caller.
\<close>

definition unwinding :: "('r, 's) comp \<Rightarrow> (unit, 's) comp \<Rightarrow> ('r, 's) comp" where
  "unwinding m cleanup s =
     (case m s of
        Done r s' \<Rightarrow> Done r s'
      | Thrown e s' \<Rightarrow> (case cleanup s' of Done u s'' \<Rightarrow> Thrown e s'' | Thrown e' s'' \<Rightarrow> Fault Undefined_Behaviour | Fault x \<Rightarrow> Fault x)
      | Fault x \<Rightarrow> Fault x)"

section \<open>The element type\<close>

text \<open>
  \<^verbatim>\<open>T\<close> is a parameter of the templates. What the code uses of it: the two traits read
  by \<^verbatim>\<open>if constexpr\<close>, and its constructors and assignment operators. Each of them
  may throw (\<open>None\<close>). A move returns the new object together with the value the
  moved-from source is left with.
\<close>

record 'a elem_ops =
  nothrow_move_constructible :: bool
  copy_constructible :: bool
  default_ctor :: "'a option"
  copy_ctor :: "'a \<Rightarrow> 'a option"
  move_ctor :: "'a \<Rightarrow> ('a \<times> 'a) option"
  copy_assign :: "'a \<Rightarrow> 'a \<Rightarrow> 'a option"
  move_assign :: "'a \<Rightarrow> 'a \<Rightarrow> ('a \<times> 'a) option"

section \<open>Raw storage\<close>

text \<open>
  A block returned by \<^verbatim>\<open>operator new\<close> is a list of slots, each uninitialised (\<open>Raw\<close>) or
  holding a live element (\<open>Obj\<close>). A \<^verbatim>\<open>T*\<close> is the block's address (\<open>None\<close> for
  \<^verbatim>\<open>nullptr\<close>) and an offset in slots. The byte size \<^verbatim>\<open>n * sizeof(T)\<close> is not modelled.
\<close>

type_synonym addr = nat

datatype 'a slot = is_Raw: Raw | is_Obj: Obj 'a

type_synonym 'a heap = "addr \<Rightarrow> 'a slot list option"

type_synonym ptr = "addr option \<times> nat"

definition ptr_add :: "ptr \<Rightarrow> nat \<Rightarrow> ptr" where
  "ptr_add p n = (fst p, snd p + n)"

text \<open>Adding a signed offset; a pointer below the start of its block is undefined.\<close>

definition ptr_add_int :: "ptr \<Rightarrow> int \<Rightarrow> (ptr, 's) comp" where
  "ptr_add_int p k s =
     (if 0 \<le> int (snd p) + k then Done (fst p, nat (int (snd p) + k)) s
      else Fault Undefined_Behaviour)"

definition load :: "'a heap \<Rightarrow> ptr \<Rightarrow> 'a option" where
  "load h p =
     (case fst p of
        None \<Rightarrow> None
      | Some a \<Rightarrow>
          (case h a of
             None \<Rightarrow> None
           | Some blk \<Rightarrow>
               if snd p < length blk then (case blk ! snd p of Obj x \<Rightarrow> Some x | Raw \<Rightarrow> None)
               else None))"

definition store :: "'a heap \<Rightarrow> ptr \<Rightarrow> 'a slot \<Rightarrow> 'a heap option" where
  "store h p s =
     (case fst p of
        None \<Rightarrow> None
      | Some a \<Rightarrow>
          (case h a of
             None \<Rightarrow> None
           | Some blk \<Rightarrow> if snd p < length blk then Some (h(a \<mapsto> blk[snd p := s])) else None))"

text \<open>
  Reading a slot that holds no live element, and constructing or assigning outside an
  allocated block, are undefined behaviour.
\<close>

definition read_obj :: "ptr \<Rightarrow> ('a, 'a heap) comp" where
  "read_obj p h = (case load h p of None \<Rightarrow> Fault Undefined_Behaviour | Some x \<Rightarrow> Done x h)"

definition write_obj :: "ptr \<Rightarrow> 'a \<Rightarrow> (unit, 'a heap) comp" where
  "write_obj p x h = (case store h p (Obj x) of None \<Rightarrow> Fault Undefined_Behaviour | Some h' \<Rightarrow> Done () h')"

text \<open>
  \<^verbatim>\<open>std::destroy_at\<close>: the slot holds no element afterwards. Destructors do not throw.
  Running a destructor where no element lives is out of contract in C++; the model lets
  the call pass without effect, as it does for a trivially destructible \<^verbatim>\<open>T\<close>, so that
  the state such a call leaves can be examined.
\<close>

definition destroy_at :: "ptr \<Rightarrow> 'a heap \<Rightarrow> 'a heap" where
  "destroy_at p h = (case store h p Raw of None \<Rightarrow> h | Some h' \<Rightarrow> h')"

fun destroy_n :: "ptr \<Rightarrow> nat \<Rightarrow> 'a heap \<Rightarrow> 'a heap" where
  "destroy_n p 0 h = h"
| "destroy_n p (Suc n) h = destroy_n (ptr_add p 1) n (destroy_at p h)"

section \<open>The standard algorithms the code calls\<close>

text \<open>
  Placement \<^verbatim>\<open>new\<close>. \<open>construct mk p\<close> builds at \<open>p\<close> the element a constructor
  call yields, \<open>mk\<close> being the outcome of that call (\<open>None\<close> when it throws: nothing
  is written then). Copy and move construction from a live element read it first; move
  construction writes the moved-from value back to the source.
\<close>

definition construct :: "'a option \<Rightarrow> ptr \<Rightarrow> (unit, 'a heap) comp" where
  "construct mk p h = (case mk of None \<Rightarrow> Thrown Elem_Exception h | Some y \<Rightarrow> write_obj p y h)"

definition copy_construct_at :: "'a elem_ops \<Rightarrow> ptr \<Rightarrow> ptr \<Rightarrow> (unit, 'a heap) comp" where
  "copy_construct_at ops d s = bind (read_obj s) (\<lambda>x. construct (copy_ctor ops x) d)"

definition move_construct_at :: "'a elem_ops \<Rightarrow> ptr \<Rightarrow> ptr \<Rightarrow> (unit, 'a heap) comp" where
  "move_construct_at ops d s =
     bind (read_obj s) (\<lambda>x h.
       case move_ctor ops x of
         None \<Rightarrow> Thrown Elem_Exception h
       | Some (y, x') \<Rightarrow> bind (write_obj s x') (\<lambda>u. write_obj d y) h)"

definition destroying :: "ptr \<Rightarrow> (unit, 'a heap) comp" where
  "destroying p h = Done () (destroy_at p h)"

text \<open>
  The \<^verbatim>\<open>uninitialized_*_n\<close> algorithms construct into raw slots; when a constructor
  throws they destroy the elements they have built and rethrow. Here each frame
  destroys its own element as the exception passes through it.
\<close>

fun uninitialized_value_construct_n :: "'a elem_ops \<Rightarrow> ptr \<Rightarrow> nat \<Rightarrow> (unit, 'a heap) comp" where
  "uninitialized_value_construct_n ops first 0 = ret ()"
| "uninitialized_value_construct_n ops first (Suc n) =
     bind (construct (default_ctor ops) first) (\<lambda>u.
       unwinding (uninitialized_value_construct_n ops (ptr_add first 1) n) (destroying first))"

fun uninitialized_copy_n :: "'a elem_ops \<Rightarrow> ptr \<Rightarrow> nat \<Rightarrow> ptr \<Rightarrow> (unit, 'a heap) comp" where
  "uninitialized_copy_n ops first 0 d_first = ret ()"
| "uninitialized_copy_n ops first (Suc n) d_first =
     bind (copy_construct_at ops d_first first) (\<lambda>u.
       unwinding (uninitialized_copy_n ops (ptr_add first 1) n (ptr_add d_first 1)) (destroying d_first))"

fun uninitialized_move_n :: "'a elem_ops \<Rightarrow> ptr \<Rightarrow> nat \<Rightarrow> ptr \<Rightarrow> (unit, 'a heap) comp" where
  "uninitialized_move_n ops first 0 d_first = ret ()"
| "uninitialized_move_n ops first (Suc n) d_first =
     bind (move_construct_at ops d_first first) (\<lambda>u.
       unwinding (uninitialized_move_n ops (ptr_add first 1) n (ptr_add d_first 1)) (destroying d_first))"

text \<open>\<^verbatim>\<open>*d = *s\<close> and \<^verbatim>\<open>*d = std::move(*s)\<close> on live elements.\<close>

definition assign_copy :: "'a elem_ops \<Rightarrow> ptr \<Rightarrow> ptr \<Rightarrow> (unit, 'a heap) comp" where
  "assign_copy ops d s =
     bind (read_obj s) (\<lambda>x.
     bind (read_obj d) (\<lambda>old h.
       case copy_assign ops old x of
         None \<Rightarrow> Thrown Elem_Exception h
       | Some y \<Rightarrow> write_obj d y h))"

definition assign_move :: "'a elem_ops \<Rightarrow> ptr \<Rightarrow> ptr \<Rightarrow> (unit, 'a heap) comp" where
  "assign_move ops d s =
     bind (read_obj s) (\<lambda>x.
     bind (read_obj d) (\<lambda>old h.
       case move_assign ops old x of
         None \<Rightarrow> Thrown Elem_Exception h
       | Some (y, x') \<Rightarrow> bind (write_obj s x') (\<lambda>u. write_obj d y) h))"

fun copy_n :: "'a elem_ops \<Rightarrow> ptr \<Rightarrow> nat \<Rightarrow> ptr \<Rightarrow> (unit, 'a heap) comp" where
  "copy_n ops first 0 d_first = ret ()"
| "copy_n ops first (Suc n) d_first =
     bind (assign_copy ops d_first first) (\<lambda>u. copy_n ops (ptr_add first 1) n (ptr_add d_first 1))"

fun move_n :: "'a elem_ops \<Rightarrow> ptr \<Rightarrow> nat \<Rightarrow> ptr \<Rightarrow> (unit, 'a heap) comp" where
  "move_n ops first 0 d_first = ret ()"
| "move_n ops first (Suc n) d_first =
     bind (assign_move ops d_first first) (\<lambda>u. move_n ops (ptr_add first 1) n (ptr_add d_first 1))"

text \<open>
  \<^verbatim>\<open>std::move(first, last, d_first)\<close> and \<^verbatim>\<open>std::move_backward(first, last, d_last)\<close>
  require \<open>[first, last)\<close> to be a range: both pointers into one array and
  \<open>first \<le> last\<close>. Anything else is undefined behaviour.
\<close>

definition move_range :: "'a elem_ops \<Rightarrow> ptr \<Rightarrow> ptr \<Rightarrow> ptr \<Rightarrow> (unit, 'a heap) comp" where
  "move_range ops first last' d_first =
     (if fst first = fst last' \<and> snd first \<le> snd last'
      then move_n ops first (snd last' - snd first) d_first
      else (\<lambda>h. Fault Undefined_Behaviour))"

fun move_backward_n :: "'a elem_ops \<Rightarrow> ptr \<Rightarrow> nat \<Rightarrow> ptr \<Rightarrow> (unit, 'a heap) comp" where
  "move_backward_n ops first 0 d_last = ret ()"
| "move_backward_n ops first (Suc n) d_last =
     (if snd d_last = 0 then (\<lambda>h. Fault Undefined_Behaviour)
      else bind (assign_move ops (fst d_last, snd d_last - 1) (ptr_add first n))
             (\<lambda>u. move_backward_n ops first n (fst d_last, snd d_last - 1)))"

definition move_backward :: "'a elem_ops \<Rightarrow> ptr \<Rightarrow> ptr \<Rightarrow> ptr \<Rightarrow> (unit, 'a heap) comp" where
  "move_backward ops first last' d_last =
     (if fst first = fst last' \<and> snd first \<le> snd last'
      then move_backward_n ops first (snd last' - snd first) d_last
      else (\<lambda>h. Fault Undefined_Behaviour))"

section \<open>The program state\<close>

text \<open>
  The state holds the blocks that are allocated, the allocator (the next fresh address
  and the number of slots it can still hand out: \<^verbatim>\<open>operator new\<close> throws
  \<^verbatim>\<open>std::bad_alloc\<close> beyond that), and the \<^verbatim>\<open>Vector\<close> objects that exist, each under
  the address of the object (\<^verbatim>\<open>this\<close>), which is what \<^verbatim>\<open>this != &rhs\<close> compares.
  The members \<^verbatim>\<open>buffer_\<close>, \<^verbatim>\<open>capacity_\<close>, \<^verbatim>\<open>data_\<close> and \<^verbatim>\<open>size_\<close> are written with a
  prime in place of the underscore.
\<close>

type_synonym vid = nat

record raw_memory =
  buffer' :: "addr option"
  capacity' :: nat

record vector =
  data' :: raw_memory
  size' :: nat

record 'a state =
  blocks :: "'a heap"
  next_addr :: addr
  free_slots :: nat
  vecs :: "vid \<Rightarrow> vector option"

definition on_heap :: "('r, 'a heap) comp \<Rightarrow> ('r, 'a state) comp" where
  "on_heap m st =
     (case m (blocks st) of
        Done r h \<Rightarrow> Done r (st\<lparr>blocks := h\<rparr>)
      | Thrown e h \<Rightarrow> Thrown e (st\<lparr>blocks := h\<rparr>)
      | Fault x \<Rightarrow> Fault x)"

definition on_heap_noexcept :: "('a heap \<Rightarrow> 'a heap) \<Rightarrow> (unit, 'a state) comp" where
  "on_heap_noexcept f st = Done () (st\<lparr>blocks := f (blocks st)\<rparr>)"

text \<open>Reading and writing the members of the object at \<^verbatim>\<open>this\<close>.\<close>

definition get_vec :: "vid \<Rightarrow> (vector, 'a state) comp" where
  "get_vec this st = (case vecs st this of None \<Rightarrow> Fault Undefined_Behaviour | Some v \<Rightarrow> Done v st)"

definition put_vec :: "vid \<Rightarrow> vector \<Rightarrow> (unit, 'a state) comp" where
  "put_vec this v st = Done () (st\<lparr>vecs := (vecs st)(this \<mapsto> v)\<rparr>)"

text \<open>A constructor brings a new object to life at an address that holds none.\<close>

definition new_vec :: "vid \<Rightarrow> vector \<Rightarrow> (unit, 'a state) comp" where
  "new_vec this v st =
     (case vecs st this of
        None \<Rightarrow> Done () (st\<lparr>vecs := (vecs st)(this \<mapsto> v)\<rparr>)
      | Some w \<Rightarrow> Fault Undefined_Behaviour)"

definition delete_vec :: "vid \<Rightarrow> (unit, 'a state) comp" where
  "delete_vec this st = Done () (st\<lparr>vecs := (vecs st)(this := None)\<rparr>)"

section \<open>\<^verbatim>\<open>RawMemory\<close>\<close>

text \<open>
  \<^verbatim>\<open>Allocate\<close>: \<^verbatim>\<open>n != 0 ? operator new(n * sizeof(T)) : nullptr\<close>. The new block is all
  raw slots. \<^verbatim>\<open>Deallocate\<close>: \<^verbatim>\<open>operator delete(buf)\<close>, which accepts \<^verbatim>\<open>nullptr\<close>;
  releasing an address that is not an allocated block is undefined behaviour.

  The allocator is counted in slots: \<open>free_slots\<close> is the number of slots it can still
  hand out, and a request for more throws \<^verbatim>\<open>std::bad_alloc\<close>. The byte count
  \<^verbatim>\<open>n * sizeof(T)\<close>, which the code computes in \<^verbatim>\<open>size_t\<close>, is not computed here. So the
  model follows the code for the requests with \<open>n * sizeof(T) < 2 ^ 64\<close>; beyond, the
  product wraps and the code obtains a block of fewer than \<open>n\<close> slots, where the model
  throws or hands out \<open>n\<close> slots.
\<close>

definition Allocate :: "nat \<Rightarrow> (addr option, 'a state) comp" where
  "Allocate n st =
     (if n \<noteq> 0 then
        (if n \<le> free_slots st
         then Done (Some (next_addr st))
                (st\<lparr>blocks := (blocks st)(next_addr st \<mapsto> replicate n Raw),
                    next_addr := Suc (next_addr st),
                    free_slots := free_slots st - n\<rparr>)
         else Thrown Bad_Alloc st)
      else Done None st)"

definition Deallocate :: "addr option \<Rightarrow> (unit, 'a state) comp" where
  "Deallocate buf st =
     (case buf of
        None \<Rightarrow> Done () st
      | Some a \<Rightarrow>
          (case blocks st a of
             None \<Rightarrow> Fault Undefined_Behaviour
           | Some blk \<Rightarrow>
               Done () (st\<lparr>blocks := (blocks st)(a := None), free_slots := free_slots st + length blk\<rparr>)))"

definition RawMemory_default :: raw_memory where
  "RawMemory_default = \<lparr>buffer' = None, capacity' = 0\<rparr>"

definition RawMemory :: "nat \<Rightarrow> (raw_memory, 'a state) comp" where
  "RawMemory capacity = bind (Allocate capacity) (\<lambda>buf. ret \<lparr>buffer' = buf, capacity' = capacity\<rparr>)"

text \<open>
  \<^verbatim>\<open>operator=(RawMemory&& rhs)\<close>, which the move constructor of \<^verbatim>\<open>Vector\<close> and its move
  assignment call on \<^verbatim>\<open>data_\<close>: both members are overwritten by \<^verbatim>\<open>std::exchange\<close> on
  \<^verbatim>\<open>rhs\<close>. The result is the pair (the object assigned to, \<^verbatim>\<open>rhs\<close>). The block the
  object owned before is not passed to \<^verbatim>\<open>Deallocate\<close>.
\<close>

definition RawMemory_move_assign :: "raw_memory \<Rightarrow> raw_memory \<Rightarrow> raw_memory \<times> raw_memory" where
  "RawMemory_move_assign this rhs =
     (\<lparr>buffer' = buffer' rhs, capacity' = capacity' rhs\<rparr>,
      \<lparr>buffer' = None, capacity' = 0\<rparr>)"

definition RawMemory_dtor :: "raw_memory \<Rightarrow> (unit, 'a state) comp" where
  "RawMemory_dtor this = Deallocate (buffer' this)"

text \<open>\<^verbatim>\<open>operator+\<close> and \<^verbatim>\<open>operator[]\<close>, with their assertions.\<close>

definition RawMemory_plus :: "raw_memory \<Rightarrow> nat \<Rightarrow> (ptr, 's) comp" where
  "RawMemory_plus this offset s =
     (if offset \<le> capacity' this then Done (buffer' this, offset) s else Fault Assertion_Failed)"

definition RawMemory_index :: "raw_memory \<Rightarrow> nat \<Rightarrow> (ptr, 's) comp" where
  "RawMemory_index this index s =
     (if index < capacity' this then Done (buffer' this, index) s else Fault Assertion_Failed)"

definition GetAddress :: "raw_memory \<Rightarrow> ptr" where
  "GetAddress this = (buffer' this, 0)"

definition RawMemory_Capacity :: "raw_memory \<Rightarrow> nat" where
  "RawMemory_Capacity this = capacity' this"

section \<open>\<^verbatim>\<open>Vector\<close>: construction and destruction\<close>

definition Vector_default :: "vid \<Rightarrow> (unit, 'a state) comp" where
  "Vector_default this = new_vec this \<lparr>data' = RawMemory_default, size' = 0\<rparr>"

text \<open>
  \<^verbatim>\<open>Vector(size_t size)\<close> and \<^verbatim>\<open>Vector(const Vector& other)\<close>. When the body throws, the
  member \<^verbatim>\<open>data_\<close> is destroyed and no object comes to be. The second is used for the
  local \<^verbatim>\<open>rhs_copy\<close> of copy assignment as well, so it returns the members it built.
\<close>

definition Vector_sized_members :: "'a elem_ops \<Rightarrow> nat \<Rightarrow> (vector, 'a state) comp" where
  "Vector_sized_members ops n =
     bind (RawMemory n) (\<lambda>d.
     bind (unwinding (on_heap (uninitialized_value_construct_n ops (GetAddress d) n)) (RawMemory_dtor d)) (\<lambda>u.
     ret \<lparr>data' = d, size' = n\<rparr>))"

definition Vector_sized :: "'a elem_ops \<Rightarrow> vid \<Rightarrow> nat \<Rightarrow> (unit, 'a state) comp" where
  "Vector_sized ops this n = bind (Vector_sized_members ops n) (new_vec this)"

definition Vector_copy_members :: "'a elem_ops \<Rightarrow> vector \<Rightarrow> (vector, 'a state) comp" where
  "Vector_copy_members ops other =
     bind (RawMemory (size' other)) (\<lambda>d.
     bind (unwinding (on_heap (uninitialized_copy_n ops (GetAddress (data' other)) (size' other) (GetAddress d)))
             (RawMemory_dtor d)) (\<lambda>u.
     ret \<lparr>data' = d, size' = size' other\<rparr>))"

definition Vector_copy :: "'a elem_ops \<Rightarrow> vid \<Rightarrow> vid \<Rightarrow> (unit, 'a state) comp" where
  "Vector_copy ops this other =
     bind (get_vec other) (\<lambda>src. bind (Vector_copy_members ops src) (new_vec this))"

text \<open>
  \<^verbatim>\<open>Vector(Vector&& other) noexcept\<close>: \<^verbatim>\<open>data_\<close> starts as the default arena, then
  \<^verbatim>\<open>data_ = std::move(other.data_); size_ = std::exchange(other.size_, 0);\<close>
\<close>

definition Vector_move :: "vid \<Rightarrow> vid \<Rightarrow> (unit, 'a state) comp" where
  "Vector_move this other =
     bind (get_vec other) (\<lambda>src.
       case RawMemory_move_assign RawMemory_default (data' src) of
         (d, od) \<Rightarrow>
           bind (new_vec this \<lparr>data' = d, size' = size' src\<rparr>) (\<lambda>u.
           put_vec other \<lparr>data' = od, size' = 0\<rparr>))"

text \<open>\<^verbatim>\<open>Destroy()\<close> and the destructor, which runs it and then destroys \<^verbatim>\<open>data_\<close>.\<close>

definition Destroy_members :: "vector \<Rightarrow> (unit, 'a state) comp" where
  "Destroy_members v = on_heap_noexcept (destroy_n (GetAddress (data' v)) (size' v))"

definition Destroy :: "vid \<Rightarrow> (unit, 'a state) comp" where
  "Destroy this = bind (get_vec this) Destroy_members"

definition Vector_dtor_members :: "vector \<Rightarrow> (unit, 'a state) comp" where
  "Vector_dtor_members v = bind (Destroy_members v) (\<lambda>u. RawMemory_dtor (data' v))"

definition Vector_dtor :: "vid \<Rightarrow> (unit, 'a state) comp" where
  "Vector_dtor this =
     bind (get_vec this) (\<lambda>v. bind (Vector_dtor_members v) (\<lambda>u. delete_vec this))"

section \<open>\<^verbatim>\<open>Vector\<close>: access\<close>

definition Size :: "vid \<Rightarrow> (nat, 'a state) comp" where
  "Size this = bind (get_vec this) (\<lambda>v. ret (size' v))"

definition Capacity :: "vid \<Rightarrow> (nat, 'a state) comp" where
  "Capacity this = bind (get_vec this) (\<lambda>v. ret (RawMemory_Capacity (data' v)))"

definition begin_members :: "vector \<Rightarrow> ptr" where
  "begin_members v = GetAddress (data' v)"

definition end_members :: "vector \<Rightarrow> (ptr, 's) comp" where
  "end_members v = RawMemory_plus (data' v) (size' v)"

text \<open>\<^verbatim>\<open>operator[]\<close>: \<^verbatim>\<open>assert(index < size_); return data_[index];\<close> The reference is a pointer.\<close>

definition subscript :: "vid \<Rightarrow> nat \<Rightarrow> (ptr, 'a state) comp" where
  "subscript this index =
     bind (get_vec this) (\<lambda>v.
       if index < size' v then RawMemory_index (data' v) index
       else (\<lambda>st. Fault Assertion_Failed))"

section \<open>\<^verbatim>\<open>Vector\<close>: growth\<close>

definition set_size :: "vid \<Rightarrow> nat \<Rightarrow> (unit, 'a state) comp" where
  "set_size this n = bind (get_vec this) (\<lambda>v. put_vec this \<lparr>data' = data' v, size' = n\<rparr>)"

text \<open>\<^verbatim>\<open>size_++\<close> and \<^verbatim>\<open>size_--\<close>, in \<^verbatim>\<open>size_t\<close>.\<close>

definition incr_size :: "vid \<Rightarrow> (unit, 'a state) comp" where
  "incr_size this = bind (get_vec this) (\<lambda>v. set_size this (size_t (int (size' v) + 1)))"

definition decr_size :: "vid \<Rightarrow> (unit, 'a state) comp" where
  "decr_size this = bind (get_vec this) (\<lambda>v. set_size this (size_t (int (size' v) - 1)))"

text \<open>
  \<^verbatim>\<open>data_.Swap(new_data)\<close> on the local \<^verbatim>\<open>new_data\<close>: the result is what the local holds
  afterwards, the arena the vector had.
\<close>

definition Swap_data :: "vid \<Rightarrow> raw_memory \<Rightarrow> (raw_memory, 'a state) comp" where
  "Swap_data this new_data =
     bind (get_vec this) (\<lambda>v.
     bind (put_vec this \<lparr>data' = new_data, size' = size' v\<rparr>) (\<lambda>u.
     ret (data' v)))"

text \<open>
  \<^verbatim>\<open>Reallocate(new_data)\<close>: the branch of \<^verbatim>\<open>if constexpr\<close> is fixed by the two traits
  of the element type.
\<close>

definition Reallocate :: "'a elem_ops \<Rightarrow> vid \<Rightarrow> raw_memory \<Rightarrow> (unit, 'a state) comp" where
  "Reallocate ops this new_data =
     bind (get_vec this) (\<lambda>v.
       if nothrow_move_constructible ops \<or> \<not> copy_constructible ops
       then on_heap (uninitialized_move_n ops (GetAddress (data' v)) (size' v) (GetAddress new_data))
       else on_heap (uninitialized_copy_n ops (GetAddress (data' v)) (size' v) (GetAddress new_data)))"

definition Reserve :: "'a elem_ops \<Rightarrow> vid \<Rightarrow> nat \<Rightarrow> (unit, 'a state) comp" where
  "Reserve ops this new_capacity =
     bind (get_vec this) (\<lambda>v.
       if new_capacity \<le> RawMemory_Capacity (data' v) then ret ()
       else
         bind (RawMemory new_capacity) (\<lambda>new_data.
         bind (unwinding (Reallocate ops this new_data) (RawMemory_dtor new_data)) (\<lambda>u.
         bind (Destroy this) (\<lambda>u.
         bind (Swap_data this new_data) (\<lambda>new_data.
         RawMemory_dtor new_data)))))"

definition Resize :: "'a elem_ops \<Rightarrow> vid \<Rightarrow> nat \<Rightarrow> (unit, 'a state) comp" where
  "Resize ops this new_size =
     bind (get_vec this) (\<lambda>v.
       if size' v \<noteq> new_size then
         bind (if new_size < size' v
               then on_heap_noexcept (destroy_n (ptr_add (GetAddress (data' v)) new_size) (size' v - new_size))
               else
                 bind (Reserve ops this new_size) (\<lambda>u.
                 bind (get_vec this) (\<lambda>w.
                 on_heap (uninitialized_value_construct_n ops
                            (ptr_add (GetAddress (data' w)) (size' w)) (new_size - size' w))))) (\<lambda>u.
         set_size this new_size)
       else ret ())"

text \<open>
  \<^verbatim>\<open>PushBack(const T& value)\<close>, \<^verbatim>\<open>PushBack(T&& value)\<close> and \<^verbatim>\<open>EmplaceBack(args...)\<close> differ in
  the constructor that builds the new element: the copy constructor, the move
  constructor, or the one the arguments select, whose outcome is the parameter \<open>mk\<close>.
  The argument of \<^verbatim>\<open>PushBack\<close> is an object of the caller; what a move leaves in it is
  outside the state.
\<close>

definition PushBack_with :: "'a elem_ops \<Rightarrow> vid \<Rightarrow> 'a option \<Rightarrow> (unit, 'a state) comp" where
  "PushBack_with ops this mk =
     bind (get_vec this) (\<lambda>v.
     bind (if RawMemory_Capacity (data' v) = size' v then
             bind (RawMemory (if size' v = 0 then 1 else size_t (int (size' v) * 2))) (\<lambda>new_data.
             bind (unwinding
                     (bind (on_heap (construct mk (ptr_add (GetAddress new_data) (size' v)))) (\<lambda>u.
                      Reallocate ops this new_data))
                     (RawMemory_dtor new_data)) (\<lambda>u.
             bind (Destroy this) (\<lambda>u.
             bind (Swap_data this new_data) (\<lambda>new_data.
             RawMemory_dtor new_data))))
           else
             bind (RawMemory_plus (data' v) (size' v)) (\<lambda>p.
             on_heap (construct mk p))) (\<lambda>u.
     incr_size this))"

definition PushBack :: "'a elem_ops \<Rightarrow> vid \<Rightarrow> 'a \<Rightarrow> (unit, 'a state) comp" where
  "PushBack ops this val = PushBack_with ops this (copy_ctor ops val)"

definition PushBack_move :: "'a elem_ops \<Rightarrow> vid \<Rightarrow> 'a \<Rightarrow> (unit, 'a state) comp" where
  "PushBack_move ops this val = PushBack_with ops this (map_option fst (move_ctor ops val))"

definition EmplaceBack :: "'a elem_ops \<Rightarrow> vid \<Rightarrow> 'a option \<Rightarrow> (ptr, 'a state) comp" where
  "EmplaceBack ops this mk =
     bind (get_vec this) (\<lambda>v.
     bind (if RawMemory_Capacity (data' v) = size' v then
             bind (RawMemory (if size' v = 0 then 1 else size_t (int (size' v) * 2))) (\<lambda>new_data.
             bind (unwinding
                     (bind (RawMemory_plus new_data (size' v)) (\<lambda>p.
                      bind (on_heap (construct mk p)) (\<lambda>u.
                      Reallocate ops this new_data)))
                     (RawMemory_dtor new_data)) (\<lambda>u.
             bind (Destroy this) (\<lambda>u.
             bind (Swap_data this new_data) (\<lambda>new_data.
             RawMemory_dtor new_data))))
           else
             bind (RawMemory_plus (data' v) (size' v)) (\<lambda>p.
             on_heap (construct mk p))) (\<lambda>u.
     bind (incr_size this) (\<lambda>u.
     bind (get_vec this) (\<lambda>w.
     bind (end_members w) (\<lambda>e.
     ptr_add_int e (- 1))))))"

section \<open>\<^verbatim>\<open>Vector\<close>: insertion and removal\<close>

text \<open>
  An iterator is given by its distance from \<^verbatim>\<open>begin()\<close>, so \<^verbatim>\<open>pos - begin()\<close> is \<open>pos\<close>;
  \<^verbatim>\<open>int pos_num\<close> is its narrowing to \<^verbatim>\<open>int\<close>. Where \<^verbatim>\<open>pos_num\<close> is passed for a
  \<^verbatim>\<open>size_t\<close> it is converted, and as the count of an \<^verbatim>\<open>uninitialized_*_n\<close> a negative
  value means no element.

  In \<^verbatim>\<open>Emplace\<close>, \<open>mk\<close> is the outcome of \<^verbatim>\<open>T(std::forward<Args>(args)...)\<close>. The transfer
  into the new arena is written in place in the source, with the same \<^verbatim>\<open>if constexpr\<close>
  as \<^verbatim>\<open>Reallocate\<close>.
\<close>

definition Emplace_transfer :: "'a elem_ops \<Rightarrow> vector \<Rightarrow> int \<Rightarrow> raw_memory \<Rightarrow> (unit, 'a state) comp" where
  "Emplace_transfer ops v pos_num new_data =
     (if nothrow_move_constructible ops \<or> \<not> copy_constructible ops
      then
        bind (on_heap (uninitialized_move_n ops (GetAddress (data' v)) (nat pos_num) (GetAddress new_data))) (\<lambda>u.
        bind (ptr_add_int (GetAddress (data' v)) pos_num) (\<lambda>src.
        bind (ptr_add_int (GetAddress new_data) pos_num) (\<lambda>dst.
        on_heap (uninitialized_move_n ops src (size_t (int (size' v) - pos_num)) (ptr_add dst 1)))))
      else
        bind (on_heap (uninitialized_copy_n ops (GetAddress (data' v)) (nat pos_num) (GetAddress new_data))) (\<lambda>u.
        bind (ptr_add_int (GetAddress (data' v)) pos_num) (\<lambda>src.
        bind (ptr_add_int (GetAddress new_data) pos_num) (\<lambda>dst.
        on_heap (uninitialized_copy_n ops src (size_t (int (size' v) - pos_num)) (ptr_add dst 1))))))"

definition Emplace :: "'a elem_ops \<Rightarrow> vid \<Rightarrow> nat \<Rightarrow> 'a option \<Rightarrow> (ptr, 'a state) comp" where
  "Emplace ops this pos mk =
     bind (get_vec this) (\<lambda>v.
     let pos_num = to_int (int pos) in
     bind (if RawMemory_Capacity (data' v) = size' v then
             bind (RawMemory (if size' v = 0 then 1 else size_t (int (size' v) * 2))) (\<lambda>new_data.
             bind (unwinding
                     (bind (RawMemory_plus new_data (size_t pos_num)) (\<lambda>p.
                      bind (on_heap (construct mk p)) (\<lambda>u.
                      Emplace_transfer ops v pos_num new_data)))
                     (RawMemory_dtor new_data)) (\<lambda>u.
             bind (Destroy this) (\<lambda>u.
             bind (Swap_data this new_data) (\<lambda>new_data.
             RawMemory_dtor new_data))))
           else
             (\<lambda>st. case mk of
                None \<Rightarrow> Thrown Elem_Exception st
              | Some new_elem \<Rightarrow>
                 (bind (end_members v) (\<lambda>e.
                  bind (RawMemory_index (data' v) (size_t (int (size' v) - 1))) (\<lambda>l.
                  bind (on_heap (move_construct_at ops e l)) (\<lambda>u.
                  bind (ptr_add_int (begin_members v) pos_num) (\<lambda>p.
                  bind (ptr_add_int e (- 1)) (\<lambda>e1.
                  bind (on_heap (move_backward ops p e1 e)) (\<lambda>u.
                  on_heap (bind (read_obj p) (\<lambda>old h.
                    case move_assign ops old new_elem of
                      None \<Rightarrow> Thrown Elem_Exception h
                    | Some (y, x') \<Rightarrow> write_obj p y h))))))))) st)) (\<lambda>u.
     bind (incr_size this) (\<lambda>u.
     bind (get_vec this) (\<lambda>w.
     ptr_add_int (begin_members w) pos_num))))"

definition Insert :: "'a elem_ops \<Rightarrow> vid \<Rightarrow> nat \<Rightarrow> 'a \<Rightarrow> (ptr, 'a state) comp" where
  "Insert ops this pos val = Emplace ops this pos (copy_ctor ops val)"

definition Insert_move :: "'a elem_ops \<Rightarrow> vid \<Rightarrow> nat \<Rightarrow> 'a \<Rightarrow> (ptr, 'a state) comp" where
  "Insert_move ops this pos val = Emplace ops this pos (map_option fst (move_ctor ops val))"

definition Erase :: "'a elem_ops \<Rightarrow> vid \<Rightarrow> nat \<Rightarrow> (ptr, 'a state) comp" where
  "Erase ops this pos =
     bind (get_vec this) (\<lambda>v.
     let pos_num = to_int (int pos) in
     bind (ptr_add_int (begin_members v) pos_num) (\<lambda>p.
     bind (end_members v) (\<lambda>e.
     bind (on_heap (move_range ops (ptr_add p 1) e p)) (\<lambda>u.
     bind (ptr_add_int e (- 1)) (\<lambda>e1.
     bind (on_heap_noexcept (destroy_at e1)) (\<lambda>u.
     bind (decr_size this) (\<lambda>u.
     bind (get_vec this) (\<lambda>w.
     ptr_add_int (begin_members w) pos_num))))))))"

text \<open>\<^verbatim>\<open>PopBack\<close>: \<^verbatim>\<open>std::destroy_n(data_.GetAddress() + size_, 1); size_--;\<close> when \<^verbatim>\<open>size_ != 0\<close>.\<close>

definition PopBack :: "vid \<Rightarrow> (unit, 'a state) comp" where
  "PopBack this =
     bind (get_vec this) (\<lambda>v.
       if size' v \<noteq> 0 then
         bind (on_heap_noexcept (destroy_n (ptr_add (GetAddress (data' v)) (size' v)) 1)) (\<lambda>u.
         decr_size this)
       else ret ())"

section \<open>\<^verbatim>\<open>Vector\<close>: swap and assignment\<close>

definition Swap :: "vid \<Rightarrow> vid \<Rightarrow> (unit, 'a state) comp" where
  "Swap this other =
     bind (get_vec this) (\<lambda>v.
     bind (get_vec other) (\<lambda>w.
     bind (put_vec this \<lparr>data' = data' w, size' = size' w\<rparr>) (\<lambda>u.
     put_vec other \<lparr>data' = data' v, size' = size' v\<rparr>)))"

text \<open>
  \<^verbatim>\<open>operator=(const Vector& rhs)\<close>. In the first branch the local \<^verbatim>\<open>rhs_copy\<close> is built,
  swapped with \<^verbatim>\<open>*this\<close>, and destroyed at the end of its block with what \<^verbatim>\<open>*this\<close> held.
\<close>

definition Vector_assign :: "'a elem_ops \<Rightarrow> vid \<Rightarrow> vid \<Rightarrow> (unit, 'a state) comp" where
  "Vector_assign ops this rhs =
     (if this \<noteq> rhs then
        bind (get_vec this) (\<lambda>v.
        bind (get_vec rhs) (\<lambda>r.
          if size' r > RawMemory_Capacity (data' v) then
            bind (Vector_copy_members ops r) (\<lambda>rhs_copy.
            bind (put_vec this rhs_copy) (\<lambda>u.
            Vector_dtor_members v))
          else
            bind (on_heap (copy_n ops (GetAddress (data' r)) (min (size' v) (size' r)) (GetAddress (data' v)))) (\<lambda>u.
            bind (if size' r < size' v
                  then on_heap_noexcept (destroy_n (ptr_add (GetAddress (data' v)) (size' r)) (size' v - size' r))
                  else on_heap (uninitialized_copy_n ops (ptr_add (GetAddress (data' r)) (size' v))
                                  (size' r - size' v) (ptr_add (GetAddress (data' v)) (size' v)))) (\<lambda>u.
            set_size this (size' r)))))
      else ret ())"

text \<open>
  \<^verbatim>\<open>operator=(Vector&& rhs) noexcept\<close>:
  \<^verbatim>\<open>data_ = std::move(rhs.data_); size_ = std::exchange(rhs.size_, 0);\<close> when \<^verbatim>\<open>this != &rhs\<close>.
\<close>

definition Vector_assign_move :: "vid \<Rightarrow> vid \<Rightarrow> (unit, 'a state) comp" where
  "Vector_assign_move this rhs =
     (if this \<noteq> rhs then
        bind (get_vec this) (\<lambda>v.
        bind (get_vec rhs) (\<lambda>r.
          case RawMemory_move_assign (data' v) (data' r) of
            (d, rd) \<Rightarrow>
              bind (put_vec this \<lparr>data' = d, size' = size' r\<rparr>) (\<lambda>u.
              put_vec rhs \<lparr>data' = rd, size' = 0\<rparr>)))
      else ret ())"

section \<open>Reading a state\<close>

text \<open>The empty program state, with room for \<open>m\<close> slots, and the contents of a vector.\<close>

definition init :: "nat \<Rightarrow> 'a state" where
  "init m = \<lparr>blocks = Map.empty, next_addr = 0, free_slots = m, vecs = Map.empty\<rparr>"

definition block_of :: "'a state \<Rightarrow> vector \<Rightarrow> 'a slot list" where
  "block_of st v =
     (case buffer' (data' v) of
        None \<Rightarrow> []
      | Some a \<Rightarrow> (case blocks st a of None \<Rightarrow> [] | Some blk \<Rightarrow> blk))"

definition slots :: "'a state \<Rightarrow> vid \<Rightarrow> 'a slot list" where
  "slots st this = (case vecs st this of None \<Rightarrow> [] | Some v \<Rightarrow> block_of st v)"

definition contents :: "'a state \<Rightarrow> vid \<Rightarrow> 'a slot list" where
  "contents st this = (case vecs st this of None \<Rightarrow> [] | Some v \<Rightarrow> take (size' v) (block_of st v))"

text \<open>Running one call after another, the first one's result dropped.\<close>

definition and_then :: "('r, 's) comp \<Rightarrow> ('q, 's) comp \<Rightarrow> ('q, 's) comp" where
  "and_then m m' = bind m (\<lambda>u. m')"

text \<open>
  Two element types for the examples. \<open>int_ops\<close> is \<^verbatim>\<open>int\<close>: nothing throws, and a
  move leaves the source as it was. \<open>string_ops\<close> stands for \<^verbatim>\<open>std::string\<close>: a move
  leaves the source empty. \<open>fragile_ops\<close> is a move-only type whose move constructor
  throws on the value \<open>13\<close> and leaves a moved-from source at \<open>0\<close>.
\<close>

definition int_ops :: "int elem_ops" where
  "int_ops =
     \<lparr>nothrow_move_constructible = True, copy_constructible = True,
      default_ctor = Some 0,
      copy_ctor = (\<lambda>x. Some x),
      move_ctor = (\<lambda>x. Some (x, x)),
      copy_assign = (\<lambda>d s. Some s),
      move_assign = (\<lambda>d s. Some (s, s))\<rparr>"

definition string_ops :: "string elem_ops" where
  "string_ops =
     \<lparr>nothrow_move_constructible = True, copy_constructible = True,
      default_ctor = Some [],
      copy_ctor = (\<lambda>x. Some x),
      move_ctor = (\<lambda>x. Some (x, [])),
      copy_assign = (\<lambda>d s. Some s),
      move_assign = (\<lambda>d s. Some (s, []))\<rparr>"

definition fragile_ops :: "int elem_ops" where
  "fragile_ops =
     \<lparr>nothrow_move_constructible = False, copy_constructible = False,
      default_ctor = Some 0,
      copy_ctor = (\<lambda>x. None),
      move_ctor = (\<lambda>x. if x = 13 then None else Some (x, 0)),
      copy_assign = (\<lambda>d s. None),
      move_assign = (\<lambda>d s. if s = 13 then None else Some (s, 0))\<rparr>"

section \<open>The invariant of a sequence\<close>

text \<open>
  \<open>0 \<le> size \<le> capacity\<close>, the arena has \<open>capacity\<close> slots (none when the capacity is
  zero), the slots \<open>[0, size)\<close> hold live elements and the slots \<open>[size, capacity)\<close> are
  uninitialised.
\<close>

definition vector_inv :: "'a state \<Rightarrow> vid \<Rightarrow> bool" where
  "vector_inv st this =
     (case vecs st this of
        None \<Rightarrow> False
      | Some v \<Rightarrow>
          size' v \<le> capacity' (data' v) \<and>
          (case buffer' (data' v) of
             None \<Rightarrow> capacity' (data' v) = 0
           | Some a \<Rightarrow>
               (case blocks st a of
                  None \<Rightarrow> False
                | Some blk \<Rightarrow>
                    length blk = capacity' (data' v) \<and>
                    list_all is_Obj (take (size' v) blk) \<and>
                    list_all is_Raw (drop (size' v) blk))))"

text \<open>An example state: the vector \<open>[1, 2]\<close> of capacity 2 as object 0, its block at address 1.\<close>

definition st_12 :: "int state" where
  "st_12 =
     \<lparr>blocks = [1 \<mapsto> [Obj 1, Obj 2]], next_addr = 2, free_slots = 97,
      vecs = [0 \<mapsto> \<lparr>data' = \<lparr>buffer' = Some 1, capacity' = 2\<rparr>, size' = 2\<rparr>]\<rparr>"

section \<open>Notions the proofs use\<close>



text \<open>
  The growth paths of \<^verbatim>\<open>Reserve\<close>, \<^verbatim>\<open>PushBack\<close>, \<^verbatim>\<open>EmplaceBack\<close> and \<^verbatim>\<open>Emplace\<close> have one
  shape: allocate \<^verbatim>\<open>new_data\<close>, fill it (on an exception \<^verbatim>\<open>new_data\<close> is destroyed),
  \<^verbatim>\<open>Destroy()\<close>, \<^verbatim>\<open>data_.Swap(new_data)\<close>, and the destructor of \<^verbatim>\<open>new_data\<close>. The definitions
  above spell it out four times, as the source does; \<open>with_new_arena\<close> names it.
\<close>

definition with_new_arena :: "vid \<Rightarrow> nat \<Rightarrow> (raw_memory \<Rightarrow> (unit, 'a state) comp) \<Rightarrow> (unit, 'a state) comp" where
  "with_new_arena this k fill =
     bind (RawMemory k) (\<lambda>new_data.
     bind (unwinding (fill new_data) (RawMemory_dtor new_data)) (\<lambda>u.
     bind (Destroy this) (\<lambda>u.
     bind (Swap_data this new_data) (\<lambda>new_data.
     RawMemory_dtor new_data))))"

text \<open>
  \<open>same_except b h h'\<close>: the heaps agree on every block but \<open>b\<close>. \<open>frame b s s'\<close>: so do
  the states, and no vector object has changed.
\<close>

definition same_except :: "addr option \<Rightarrow> 'a heap \<Rightarrow> 'a heap \<Rightarrow> bool" where
  "same_except b h h' \<longleftrightarrow> (\<forall>c. Some c \<noteq> b \<longrightarrow> h' c = h c)"

definition frame :: "addr option \<Rightarrow> 'a state \<Rightarrow> 'a state \<Rightarrow> bool" where
  "frame b s s' \<longleftrightarrow> vecs s' = vecs s \<and> same_except b (blocks s) (blocks s')"

text \<open>
  \<open>final_state\<close>: the state a call leaves, whether it returns or throws. \<open>keeps\<close>: no
  vector object has changed and nothing was allocated. \<open>grows_from c this st st'\<close>: in
  \<open>st'\<close> the vector \<open>this\<close> has capacity at least \<open>c\<close>, and at most one block has been
  allocated since \<open>st\<close> (every allocation takes the next address).
\<close>

definition final_state :: "('r, 's) result \<Rightarrow> 's option" where
  "final_state r = (case r of Done x s \<Rightarrow> Some s | Thrown e s \<Rightarrow> Some s | Fault f \<Rightarrow> None)"

definition keeps :: "'a state \<Rightarrow> 'a state \<Rightarrow> bool" where
  "keeps s s' \<longleftrightarrow> vecs s' = vecs s \<and> next_addr s' = next_addr s"

definition grows_from :: "nat \<Rightarrow> vid \<Rightarrow> 'a state \<Rightarrow> 'a state \<Rightarrow> bool" where
  "grows_from c this st st' \<longleftrightarrow>
     (\<exists>v'. vecs st' this = Some v' \<and> c \<le> capacity' (data' v')) \<and> next_addr st' \<le> Suc (next_addr st)"

text \<open>
  Further examples. \<open>checked_copy_ops\<close> is a copyable type whose constructors and
  assignments throw on the value \<open>13\<close> (its move constructor is not \<^verbatim>\<open>noexcept\<close>).
  \<open>st_5_13\<close> holds the vector \<open>[5, 13]\<close> of capacity 2 as object 0.
\<close>

definition checked_copy_ops :: "int elem_ops" where
  "checked_copy_ops =
     \<lparr>nothrow_move_constructible = False, copy_constructible = True,
      default_ctor = Some 0,
      copy_ctor = (\<lambda>x. if x = 13 then None else Some x),
      move_ctor = (\<lambda>x. if x = 13 then None else Some (x, 0)),
      copy_assign = (\<lambda>d s. if s = 13 then None else Some s),
      move_assign = (\<lambda>d s. if s = 13 then None else Some (s, 0))\<rparr>"


text \<open>
  Notions for the contents of an arena. \<open>overwrite j ys blk\<close> is the block \<open>blk\<close> with the
  slots from index \<open>j\<close> on replaced by \<open>ys\<close>. \<open>holds st v xs\<close> says that the vector \<open>v\<close>
  holds exactly the elements \<open>xs\<close> in the state \<open>st\<close>: its size is their number, it fits
  the capacity, and its arena is a block of \<open>capacity\<close> slots whose first \<open>size\<close> slots are
  the live objects \<open>xs\<close> and whose other slots are raw memory (no arena at capacity 0).
\<close>

definition overwrite :: "nat \<Rightarrow> 'b list \<Rightarrow> 'b list \<Rightarrow> 'b list" where
  "overwrite j ys blk = take j blk @ ys @ drop (j + length ys) blk"

definition holds :: "'a state \<Rightarrow> vector \<Rightarrow> 'a list \<Rightarrow> bool" where
  "holds st v xs \<longleftrightarrow>
     size' v = length xs \<and> length xs \<le> capacity' (data' v) \<and>
     (case buffer' (data' v) of
        None \<Rightarrow> capacity' (data' v) = 0
      | Some a \<Rightarrow> blocks st a = Some (map Obj xs @ replicate (capacity' (data' v) - length xs) Raw))"

text \<open>
  An example state with two vectors: \<open>[1, 2]\<close> of capacity 2 as object 0 and \<open>[7, 8, 9]\<close> of
  capacity 4 as object 1.
\<close>

definition st_12_789 :: "int state" where
  "st_12_789 =
     \<lparr>blocks = [1 \<mapsto> [Obj 1, Obj 2], 2 \<mapsto> [Obj 7, Obj 8, Obj 9, Raw]], next_addr = 3, free_slots = 94,
      vecs = [0 \<mapsto> \<lparr>data' = \<lparr>buffer' = Some 1, capacity' = 2\<rparr>, size' = 2\<rparr>,
              1 \<mapsto> \<lparr>data' = \<lparr>buffer' = Some 2, capacity' = 4\<rparr>, size' = 3\<rparr>]\<rparr>"

text \<open>
  What the specification says of a transfer of the elements \<open>xs\<close> into a new arena:
  \<open>transfer_spec ops xs ys zs\<close> holds when \<open>ys\<close> are the elements built in the new arena
  and \<open>zs\<close> are the values the old slots hold afterwards. If the move constructor of the
  element type cannot throw, or the type is not copy-constructible, each element is
  move-constructed: \<open>ys\<close> are the results and \<open>zs\<close> the moved-from values. Otherwise each
  element is copy-constructed: \<open>ys\<close> are the copies and the old elements are untouched,
  \<open>zs = xs\<close>. The choice depends on the two traits of the type only.
\<close>

definition transfer_spec :: "'a elem_ops \<Rightarrow> 'a list \<Rightarrow> 'a list \<Rightarrow> 'a list \<Rightarrow> bool" where
  "transfer_spec ops xs ys zs \<longleftrightarrow>
     (if nothrow_move_constructible ops \<or> \<not> copy_constructible ops
      then map (move_ctor ops) xs = map Some (zip ys zs) \<and> length ys = length xs \<and> length zs = length xs
      else map (copy_ctor ops) xs = map Some ys \<and> zs = xs)"

text \<open>
  The state \<open>st_12\<close> with a second block of four raw slots at address 2.
\<close>

definition st_12_raw4 :: "int state" where
  "st_12_raw4 =
     \<lparr>blocks = [1 \<mapsto> [Obj 1, Obj 2], 2 \<mapsto> [Raw, Raw, Raw, Raw]], next_addr = 3, free_slots = 93,
      vecs = [0 \<mapsto> \<lparr>data' = \<lparr>buffer' = Some 1, capacity' = 2\<rparr>, size' = 2\<rparr>]\<rparr>"

section \<open>Evaluating the model\<close>

lemmas run_defs = and_then_def bind_def ret_def unwinding_def on_heap_def on_heap_noexcept_def get_vec_def put_vec_def
  new_vec_def delete_vec_def Allocate_def Deallocate_def RawMemory_default_def RawMemory_def RawMemory_move_assign_def
  RawMemory_dtor_def RawMemory_plus_def RawMemory_index_def GetAddress_def RawMemory_Capacity_def
  Vector_default_def Vector_sized_members_def Vector_sized_def Vector_copy_members_def Vector_copy_def Vector_move_def
  Destroy_members_def Destroy_def Vector_dtor_members_def Vector_dtor_def Size_def Capacity_def begin_members_def
  end_members_def subscript_def set_size_def incr_size_def decr_size_def Swap_data_def Reallocate_def Reserve_def
  Resize_def PushBack_with_def PushBack_def PushBack_move_def EmplaceBack_def Emplace_transfer_def Emplace_def
  Insert_def Insert_move_def Erase_def PopBack_def Swap_def Vector_assign_def Vector_assign_move_def init_def
  block_of_def slots_def contents_def size_t_def to_int_def ptr_add_def ptr_add_int_def load_def store_def
  read_obj_def write_obj_def destroy_at_def construct_def copy_construct_at_def move_construct_at_def destroying_def
  assign_copy_def assign_move_def move_range_def move_backward_def int_ops_def string_ops_def fragile_ops_def

section \<open>Outcomes of the building blocks\<close>

lemma Reserve_shape:
  "Reserve ops this n =
     bind (get_vec this) (\<lambda>v.
       if n \<le> RawMemory_Capacity (data' v) then ret ()
       else with_new_arena this n (Reallocate ops this))"
  unfolding Reserve_def with_new_arena_def by (rule refl)

lemma bind_DoneE:
  assumes "bind m f s = Done r s'"
  obtains r1 s1 where "m s = Done r1 s1" and "f r1 s1 = Done r s'"
  using assms by (auto simp: bind_def split: result.splits)

lemma bind_ThrownE:
  assumes "bind m f s = Thrown e s'"
  obtains "m s = Thrown e s'" | r1 s1 where "m s = Done r1 s1" and "f r1 s1 = Thrown e s'"
  using assms by (auto simp: bind_def split: result.splits)

lemma unwinding_DoneE:
  assumes "unwinding m c s = Done r s'"
  obtains "m s = Done r s'"
  using assms by (auto simp: unwinding_def split: result.splits)

lemma unwinding_ThrownE:
  assumes "unwinding m c s = Thrown e s'"
  obtains s1 where "m s = Thrown e s1" and "c s1 = Done () s'"
  using assms by (auto simp: unwinding_def split: result.splits)

lemma ret_simps [simp]:
  "ret r s = Done r' s' \<longleftrightarrow> r' = r \<and> s' = s"
  "ret r s \<noteq> Thrown e s'"
  by (auto simp: ret_def)

lemma get_vec_simps [simp]:
  "get_vec this s = Done v s' \<longleftrightarrow> s' = s \<and> vecs s this = Some v"
  "get_vec this s \<noteq> Thrown e s'"
  by (auto simp: get_vec_def split: option.splits)

lemma put_vec_simps [simp]:
  "put_vec this v s = Done u s' \<longleftrightarrow> s' = s\<lparr>vecs := (vecs s)(this \<mapsto> v)\<rparr>"
  "put_vec this v s \<noteq> Thrown e s'"
  by (auto simp: put_vec_def)

lemma on_heap_Done:
  "on_heap m s = Done r s' \<longleftrightarrow> (\<exists>h. m (blocks s) = Done r h \<and> s' = s\<lparr>blocks := h\<rparr>)"
  by (auto simp: on_heap_def split: result.splits)

lemma on_heap_Thrown:
  "on_heap m s = Thrown e s' \<longleftrightarrow> (\<exists>h. m (blocks s) = Thrown e h \<and> s' = s\<lparr>blocks := h\<rparr>)"
  by (auto simp: on_heap_def split: result.splits)

lemma on_heap_noexcept_simps [simp]:
  "on_heap_noexcept f s = Done u s' \<longleftrightarrow> s' = s\<lparr>blocks := f (blocks s)\<rparr>"
  "on_heap_noexcept f s \<noteq> Thrown e s'"
  by (auto simp: on_heap_noexcept_def)

lemma RawMemory_Done:
  "RawMemory k s = Done nd s' \<longleftrightarrow>
     (if k = 0 then nd = \<lparr>buffer' = None, capacity' = 0\<rparr> \<and> s' = s
      else k \<le> free_slots s \<and> nd = \<lparr>buffer' = Some (next_addr s), capacity' = k\<rparr> \<and>
           s' = s\<lparr>blocks := (blocks s)(next_addr s \<mapsto> replicate k Raw),
                  next_addr := Suc (next_addr s), free_slots := free_slots s - k\<rparr>)"
  by (auto simp: RawMemory_def Allocate_def bind_def ret_def)

lemma RawMemory_Thrown:
  "RawMemory k s = Thrown e s' \<longleftrightarrow> k \<noteq> 0 \<and> \<not> k \<le> free_slots s \<and> e = Bad_Alloc \<and> s' = s"
  by (auto simp: RawMemory_def Allocate_def bind_def ret_def)

lemma RawMemory_dtor_Done:
  "RawMemory_dtor nd s = Done u s' \<longleftrightarrow>
     (case buffer' nd of
        None \<Rightarrow> s' = s
      | Some a \<Rightarrow> (\<exists>blk. blocks s a = Some blk \<and>
                     s' = s\<lparr>blocks := (blocks s)(a := None), free_slots := free_slots s + length blk\<rparr>))"
  by (auto simp: RawMemory_dtor_def Deallocate_def split: option.splits)

lemma RawMemory_dtor_Thrown [simp]: "RawMemory_dtor nd s \<noteq> Thrown e s'"
  by (auto simp: RawMemory_dtor_def Deallocate_def split: option.splits)

lemma Destroy_Done:
  "Destroy this s = Done u s' \<longleftrightarrow>
     (\<exists>v. vecs s this = Some v \<and> s' = s\<lparr>blocks := destroy_n (GetAddress (data' v)) (size' v) (blocks s)\<rparr>)"
  by (auto simp: Destroy_def Destroy_members_def bind_def get_vec_def on_heap_noexcept_def split: option.splits)

lemma Destroy_Thrown [simp]: "Destroy this s \<noteq> Thrown e s'"
  by (auto simp: Destroy_def Destroy_members_def bind_def get_vec_def on_heap_noexcept_def split: option.splits)

lemma Swap_data_Done:
  "Swap_data this nd s = Done od s' \<longleftrightarrow>
     (\<exists>v. vecs s this = Some v \<and> od = data' v \<and>
          s' = s\<lparr>vecs := (vecs s)(this \<mapsto> \<lparr>data' = nd, size' = size' v\<rparr>)\<rparr>)"
  by (auto simp: Swap_data_def bind_def get_vec_def put_vec_def ret_def split: option.splits)

lemma Swap_data_Thrown [simp]: "Swap_data this nd s \<noteq> Thrown e s'"
  by (auto simp: Swap_data_def bind_def get_vec_def put_vec_def ret_def split: option.splits)

lemma same_except_refl [simp]: "same_except b h h"
  by (simp add: same_except_def)

lemma same_except_trans: "same_except b h h1 \<Longrightarrow> same_except b h1 h2 \<Longrightarrow> same_except b h h2"
  by (simp add: same_except_def)

lemma store_same_except: "store h p s = Some h' \<Longrightarrow> same_except (fst p) h h'"
  by (auto simp: store_def same_except_def split: option.splits if_splits)

lemma write_obj_Done: "write_obj p x h = Done u h' \<longleftrightarrow> store h p (Obj x) = Some h'"
  by (auto simp: write_obj_def split: option.splits)

lemma write_obj_Thrown [simp]: "write_obj p x h \<noteq> Thrown e h'"
  by (auto simp: write_obj_def split: option.splits)

lemma read_obj_Done: "read_obj p h = Done x h' \<longleftrightarrow> h' = h \<and> load h p = Some x"
  by (auto simp: read_obj_def split: option.splits)

lemma read_obj_Thrown [simp]: "read_obj p h \<noteq> Thrown e h'"
  by (auto simp: read_obj_def split: option.splits)

lemma destroy_at_same_except: "same_except (fst p) h (destroy_at p h)"
  by (auto simp: destroy_at_def dest: store_same_except split: option.splits)

lemma construct_Thrown: "construct mk p h = Thrown e h' \<longleftrightarrow> mk = None \<and> e = Elem_Exception \<and> h' = h"
  by (auto simp: construct_def split: option.splits)

lemma construct_Done: "construct mk p h = Done u h' \<longleftrightarrow> (\<exists>y. mk = Some y \<and> store h p (Obj y) = Some h')"
  by (auto simp: construct_def write_obj_Done split: option.splits)

lemma construct_same_except:
  "construct mk p h = Done u h' \<Longrightarrow> same_except (fst p) h h'"
  "construct mk p h = Thrown e h' \<Longrightarrow> same_except (fst p) h h'"
  by (auto simp: construct_Done construct_Thrown dest: store_same_except)

lemma copy_construct_at_same_except:
  "copy_construct_at ops d s h = Done u h' \<Longrightarrow> same_except (fst d) h h'"
  "copy_construct_at ops d s h = Thrown e h' \<Longrightarrow> same_except (fst d) h h'"
  unfolding copy_construct_at_def
  by (auto elim!: bind_DoneE bind_ThrownE simp: read_obj_Done dest: construct_same_except)

lemma fst_ptr_add [simp]: "fst (ptr_add p n) = fst p"
  by (simp add: ptr_add_def)

lemma snd_ptr_add [simp]: "snd (ptr_add p n) = snd p + n"
  by (simp add: ptr_add_def)

lemma destroying_Done: "destroying p h = Done u h' \<longleftrightarrow> h' = destroy_at p h"
  by (auto simp: destroying_def)

lemma uninitialized_copy_n_frame:
  "(uninitialized_copy_n ops s n d h = Done u h' \<longrightarrow> same_except (fst d) h h') \<and>
   (uninitialized_copy_n ops s n d h = Thrown e h' \<longrightarrow> same_except (fst d) h h')"
proof (induction n arbitrary: s d h h')
  case 0
  then show ?case by simp
next
  case (Suc n)
  have "same_except (fst d) h h'" if "uninitialized_copy_n ops s (Suc n) d h = Done u h'"
  proof -
    from that obtain h1 where a: "copy_construct_at ops d s h = Done () h1"
      and b: "uninitialized_copy_n ops (ptr_add s 1) n (ptr_add d 1) h1 = Done u h'"
      by (auto elim!: bind_DoneE unwinding_DoneE)
    from a have "same_except (fst d) h h1" by (rule copy_construct_at_same_except)
    moreover from b have "same_except (fst d) h1 h'" using Suc.IH [of "ptr_add s 1" "ptr_add d 1" h1 h'] by simp
    ultimately show ?thesis by (rule same_except_trans)
  qed
  moreover have "same_except (fst d) h h'" if "uninitialized_copy_n ops s (Suc n) d h = Thrown e h'"
  proof -
    from that consider "copy_construct_at ops d s h = Thrown e h'"
      | h1 h2 where "copy_construct_at ops d s h = Done () h1"
          "uninitialized_copy_n ops (ptr_add s 1) n (ptr_add d 1) h1 = Thrown e h2"
          "h' = destroy_at d h2"
      by (auto elim!: bind_ThrownE unwinding_ThrownE simp: destroying_Done)
    then show ?thesis
    proof cases
      case 1
      then show ?thesis by (rule copy_construct_at_same_except)
    next
      case 2
      from 2(1) have "same_except (fst d) h h1" by (rule copy_construct_at_same_except)
      moreover from 2(2) have "same_except (fst d) h1 h2" using Suc.IH [of "ptr_add s 1" "ptr_add d 1" h1 h2] by simp
      moreover have "same_except (fst d) h2 h'" unfolding 2(3) by (rule destroy_at_same_except)
      ultimately show ?thesis by (blast intro: same_except_trans)
    qed
  qed
  ultimately show ?case by blast
qed

lemma uninitialized_copy_n_same_except:
  "uninitialized_copy_n ops s n d h = Done u h' \<Longrightarrow> same_except (fst d) h h'"
  "uninitialized_copy_n ops s n d h = Thrown e h' \<Longrightarrow> same_except (fst d) h h'"
  using uninitialized_copy_n_frame [of ops s n d h u h' e] by blast+



lemma frame_refl [simp]: "frame b s s"
  by (simp add: frame_def)

lemma frame_trans: "frame b s s1 \<Longrightarrow> frame b s1 s2 \<Longrightarrow> frame b s s2"
  by (auto simp: frame_def intro: same_except_trans)


lemma on_heap_frame:
  assumes "\<And>h h'. m h = Done r h' \<Longrightarrow> same_except b h h'"
    and "\<And>h h'. m h = Thrown e h' \<Longrightarrow> same_except b h h'"
  shows "on_heap m s = Done r s' \<Longrightarrow> frame b s s'" and "on_heap m s = Thrown e s' \<Longrightarrow> frame b s s'"
  using assms by (auto simp: on_heap_Done on_heap_Thrown frame_def)


lemma on_heap_copy_frame:
  "on_heap (uninitialized_copy_n ops s n d) st = Done u st' \<Longrightarrow> frame (fst d) st st'"
  "on_heap (uninitialized_copy_n ops s n d) st = Thrown e st' \<Longrightarrow> frame (fst d) st st'"
  by (auto simp: on_heap_Done on_heap_Thrown frame_def dest: uninitialized_copy_n_same_except)

lemma RawMemory_plus_Done:
  "RawMemory_plus rm off s = Done p s' \<longleftrightarrow> off \<le> capacity' rm \<and> p = (buffer' rm, off) \<and> s' = s"
  by (auto simp: RawMemory_plus_def)

lemma RawMemory_plus_Thrown [simp]: "RawMemory_plus rm off s \<noteq> Thrown e s'"
  by (auto simp: RawMemory_plus_def)

lemma RawMemory_index_Done:
  "RawMemory_index rm i s = Done p s' \<longleftrightarrow> i < capacity' rm \<and> p = (buffer' rm, i) \<and> s' = s"
  by (auto simp: RawMemory_index_def)

lemma RawMemory_index_Thrown [simp]: "RawMemory_index rm i s \<noteq> Thrown e s'"
  by (auto simp: RawMemory_index_def)

lemma ptr_add_int_Done:
  "ptr_add_int p k s = Done q s' \<longleftrightarrow> 0 \<le> int (snd p) + k \<and> q = (fst p, nat (int (snd p) + k)) \<and> s' = s"
  by (auto simp: ptr_add_int_def)

lemma ptr_add_int_Thrown [simp]: "ptr_add_int p k s \<noteq> Thrown e s'"
  by (auto simp: ptr_add_int_def)

lemma set_size_Done:
  "set_size this n s = Done u s' \<longleftrightarrow>
     (\<exists>v. vecs s this = Some v \<and> s' = s\<lparr>vecs := (vecs s)(this \<mapsto> \<lparr>data' = data' v, size' = n\<rparr>)\<rparr>)"
  by (auto simp: set_size_def bind_def get_vec_def put_vec_def split: option.splits)

lemma set_size_Thrown [simp]: "set_size this n s \<noteq> Thrown e s'"
  by (auto simp: set_size_def bind_def get_vec_def put_vec_def split: option.splits)

lemma incr_size_Done:
  "incr_size this s = Done u s' \<longleftrightarrow>
     (\<exists>v. vecs s this = Some v \<and>
          s' = s\<lparr>vecs := (vecs s)(this \<mapsto> \<lparr>data' = data' v, size' = size_t (int (size' v) + 1)\<rparr>)\<rparr>)"
  by (auto simp: incr_size_def set_size_def bind_def get_vec_def put_vec_def split: option.splits)

lemma incr_size_Thrown [simp]: "incr_size this s \<noteq> Thrown e s'"
  by (auto simp: incr_size_def set_size_def bind_def get_vec_def put_vec_def split: option.splits)

lemma decr_size_Done:
  "decr_size this s = Done u s' \<longleftrightarrow>
     (\<exists>v. vecs s this = Some v \<and>
          s' = s\<lparr>vecs := (vecs s)(this \<mapsto> \<lparr>data' = data' v, size' = size_t (int (size' v) - 1)\<rparr>)\<rparr>)"
  by (auto simp: decr_size_def set_size_def bind_def get_vec_def put_vec_def split: option.splits)

lemma decr_size_Thrown [simp]: "decr_size this s \<noteq> Thrown e s'"
  by (auto simp: decr_size_def set_size_def bind_def get_vec_def put_vec_def split: option.splits)

lemma end_members_Thrown [simp]: "end_members v s \<noteq> Thrown e s'"
  by (simp add: end_members_def)



lemma PushBack_with_shape:
  "PushBack_with ops this mk =
     bind (get_vec this) (\<lambda>v.
     bind (if RawMemory_Capacity (data' v) = size' v then
             with_new_arena this (if size' v = 0 then 1 else size_t (int (size' v) * 2))
               (\<lambda>new_data. bind (on_heap (construct mk (ptr_add (GetAddress new_data) (size' v)))) (\<lambda>u.
                      Reallocate ops this new_data))
           else
             bind (RawMemory_plus (data' v) (size' v)) (\<lambda>p.
             on_heap (construct mk p))) (\<lambda>u.
     incr_size this))"
  unfolding PushBack_with_def with_new_arena_def by (rule refl)

lemma state_blocks_same [simp]: "st\<lparr>blocks := blocks st\<rparr> = st"
  by simp

lemma EmplaceBack_shape:
  "EmplaceBack ops this mk =
     bind (get_vec this) (\<lambda>v.
     bind (if RawMemory_Capacity (data' v) = size' v then
             with_new_arena this (if size' v = 0 then 1 else size_t (int (size' v) * 2))
               (\<lambda>new_data. bind (RawMemory_plus new_data (size' v)) (\<lambda>p.
                      bind (on_heap (construct mk p)) (\<lambda>u.
                      Reallocate ops this new_data)))
           else
             bind (RawMemory_plus (data' v) (size' v)) (\<lambda>p.
             on_heap (construct mk p))) (\<lambda>u.
     bind (incr_size this) (\<lambda>u.
     bind (get_vec this) (\<lambda>w.
     bind (end_members w) (\<lambda>e.
     ptr_add_int e (- 1))))))"
  unfolding EmplaceBack_def with_new_arena_def by (rule refl)

lemma Emplace_grow_shape:
  assumes "vecs st this = Some v" and "RawMemory_Capacity (data' v) = size' v"
  shows "Emplace ops this pos mk st =
     bind (with_new_arena this (if size' v = 0 then 1 else size_t (int (size' v) * 2))
             (\<lambda>new_data. bind (RawMemory_plus new_data (size_t (to_int (int pos)))) (\<lambda>p.
                    bind (on_heap (construct mk p)) (\<lambda>u.
                    Emplace_transfer ops v (to_int (int pos)) new_data)))) (\<lambda>u.
     bind (incr_size this) (\<lambda>u.
     bind (get_vec this) (\<lambda>w.
     ptr_add_int (begin_members w) (to_int (int pos))))) st"
  using assms
  by (simp add: Emplace_def with_new_arena_def Let_def bind_def [of "get_vec this"] get_vec_def)

section \<open>Capacity and allocation along each operation\<close>

lemma final_state_simps [simp]:
  "final_state (Done x s) = Some s" "final_state (Thrown e s) = Some s" "final_state (Fault f) = None"
  by (simp_all add: final_state_def)

lemma final_stateE:
  assumes "final_state r = Some s'"
  obtains x where "r = Done x s'" | e where "r = Thrown e s'"
  using assms by (cases r) auto

lemma keeps_refl [simp]: "keeps s s"
  by (simp add: keeps_def)

lemma keeps_trans: "keeps s s1 \<Longrightarrow> keeps s1 s2 \<Longrightarrow> keeps s s2"
  by (simp add: keeps_def)

lemma on_heap_keeps:
  "on_heap m s = Done r s' \<Longrightarrow> keeps s s'" "on_heap m s = Thrown e s' \<Longrightarrow> keeps s s'"
  by (auto simp: on_heap_Done on_heap_Thrown keeps_def)

lemma on_heap_noexcept_keeps: "on_heap_noexcept f s = Done r s' \<Longrightarrow> keeps s s'"
  by (auto simp: keeps_def)

lemma RawMemory_dtor_keeps: "RawMemory_dtor nd s = Done u s' \<Longrightarrow> keeps s s'"
  by (auto simp: RawMemory_dtor_Done keeps_def split: option.splits)

lemma Destroy_keeps: "Destroy this s = Done u s' \<Longrightarrow> keeps s s'"
  by (auto simp: Destroy_Done keeps_def)

lemma Reallocate_keeps:
  "Reallocate ops this nd s = Done u s' \<Longrightarrow> keeps s s'"
  "Reallocate ops this nd s = Thrown e s' \<Longrightarrow> keeps s s'"
  unfolding Reallocate_def
  by (auto elim!: bind_DoneE bind_ThrownE dest: on_heap_keeps split: if_splits)

lemma Emplace_transfer_keeps:
  "Emplace_transfer ops v k nd s = Done u s' \<Longrightarrow> keeps s s'"
  "Emplace_transfer ops v k nd s = Thrown e s' \<Longrightarrow> keeps s s'"
  unfolding Emplace_transfer_def
  by (auto elim!: bind_DoneE bind_ThrownE simp: ptr_add_int_Done dest!: on_heap_keeps
        intro: keeps_trans split: if_splits)

lemma with_new_arena_Done_vecs:
  assumes run: "with_new_arena this k fill st = Done u st'"
    and v: "vecs st this = Some v"
    and fill: "\<forall>nd s1 s2. fill nd s1 = Done () s2 \<longrightarrow> keeps s1 s2"
  shows "\<exists>b. vecs st' = (vecs st)(this \<mapsto> \<lparr>data' = \<lparr>buffer' = b, capacity' = k\<rparr>, size' = size' v\<rparr>) \<and>
             next_addr st' \<le> Suc (next_addr st)"
  using run unfolding with_new_arena_def
proof (elim bind_DoneE unwinding_DoneE)
  fix nd s1 u2 s2 u3 s3 od s4
  assume a: "RawMemory k st = Done nd s1" and f: "fill nd s1 = Done u2 s2"
    and d: "Destroy this s2 = Done u3 s3" and sw: "Swap_data this nd s3 = Done od s4"
    and dt: "RawMemory_dtor od s4 = Done u st'"
  from a have nd: "capacity' nd = k" and k1: "vecs s1 = vecs st" "next_addr s1 \<le> Suc (next_addr st)"
    by (auto simp: RawMemory_Done split: if_splits)
  from fill f have k2: "keeps s1 s2" by simp
  from d have k3: "keeps s2 s3" by (rule Destroy_keeps)
  from k1 k2 k3 have v3: "vecs s3 this = Some v" and n3: "next_addr s3 \<le> Suc (next_addr st)" "vecs s3 = vecs st"
    using v by (auto simp: keeps_def)
  from sw v3 have s4: "s4 = s3\<lparr>vecs := (vecs s3)(this \<mapsto> \<lparr>data' = nd, size' = size' v\<rparr>)\<rparr>"
    by (auto simp: Swap_data_Done)
  from dt have "keeps s4 st'" by (rule RawMemory_dtor_keeps)
  with s4 n3 nd show ?thesis
    by (cases nd) (auto simp: keeps_def)
qed

lemma with_new_arena_Thrown_vecs:
  assumes run: "with_new_arena this k fill st = Thrown e st'"
    and fill: "\<forall>nd s1 s2. fill nd s1 = Thrown e s2 \<longrightarrow> keeps s1 s2"
  shows "vecs st' = vecs st \<and> next_addr st' \<le> Suc (next_addr st)"
  using run unfolding with_new_arena_def
proof (elim bind_ThrownE unwinding_ThrownE)
  assume "RawMemory k st = Thrown e st'"
  then show ?thesis by (simp add: RawMemory_Thrown)
next
  fix nd s1 s2
  assume a: "RawMemory k st = Done nd s1" and f: "fill nd s1 = Thrown e s2"
    and dt: "RawMemory_dtor nd s2 = Done () st'"
  from a have k1: "vecs s1 = vecs st" "next_addr s1 \<le> Suc (next_addr st)"
    by (auto simp: RawMemory_Done split: if_splits)
  from fill f have "keeps s1 s2" by simp
  with RawMemory_dtor_keeps [OF dt] k1 show ?thesis
    by (auto simp: keeps_def)
qed simp_all

lemma size_t_small: "0 \<le> i \<Longrightarrow> i < 2 ^ 64 \<Longrightarrow> size_t i = nat i"
  by (simp add: size_t_def)

lemma size_t_double: "n < 2 ^ 63 \<Longrightarrow> size_t (int n * 2) = 2 * n"
  by (simp add: size_t_def nat_mult_distrib)

lemma size_t_Suc: "n < 2 ^ 63 \<Longrightarrow> size_t (int n + 1) = Suc n"
proof -
  assume "n < 2 ^ 63"
  then have "int n + 1 < 2 ^ 64" by simp
  then have "size_t (int n + 1) = nat (int n + 1)" by (simp add: size_t_small)
  then show ?thesis by simp
qed

lemma bind_get_vec: "vecs st this = Some v \<Longrightarrow> bind (get_vec this) f st = f v st"
  by (simp add: bind_def get_vec_def)

lemma grows_from_same:
  "vecs st' this = Some v' \<Longrightarrow> c \<le> capacity' (data' v') \<Longrightarrow> next_addr st' \<le> Suc (next_addr st)
     \<Longrightarrow> grows_from c this st st'"
  by (auto simp: grows_from_def)

lemma fill_construct_Reallocate_keeps:
  "bind (on_heap (construct mk p)) (\<lambda>u. Reallocate ops this nd) s1 = Done u s2 \<Longrightarrow> keeps s1 s2"
  "bind (on_heap (construct mk p)) (\<lambda>u. Reallocate ops this nd) s1 = Thrown e s2 \<Longrightarrow> keeps s1 s2"
  by (auto elim!: bind_DoneE bind_ThrownE dest!: on_heap_keeps Reallocate_keeps intro: keeps_trans)

lemma fill_plus_construct_Reallocate_keeps:
  "bind (RawMemory_plus nd k) (\<lambda>p. bind (on_heap (construct mk p)) (\<lambda>u. Reallocate ops this nd)) s1 = Done u s2
     \<Longrightarrow> keeps s1 s2"
  "bind (RawMemory_plus nd k) (\<lambda>p. bind (on_heap (construct mk p)) (\<lambda>u. Reallocate ops this nd)) s1 = Thrown e s2
     \<Longrightarrow> keeps s1 s2"
  by (auto elim!: bind_DoneE bind_ThrownE simp: RawMemory_plus_Done
        dest!: on_heap_keeps Reallocate_keeps intro: keeps_trans)

lemma fill_Emplace_keeps:
  "bind (RawMemory_plus nd k) (\<lambda>p. bind (on_heap (construct mk p)) (\<lambda>u. Emplace_transfer ops v i nd)) s1 = Done u s2
     \<Longrightarrow> keeps s1 s2"
  "bind (RawMemory_plus nd k) (\<lambda>p. bind (on_heap (construct mk p)) (\<lambda>u. Emplace_transfer ops v i nd)) s1 = Thrown e s2
     \<Longrightarrow> keeps s1 s2"
  by (auto elim!: bind_DoneE bind_ThrownE simp: RawMemory_plus_Done
        dest!: on_heap_keeps Emplace_transfer_keeps intro: keeps_trans)

lemma Reserve_Done_vecs:
  assumes run: "Reserve ops this n st = Done u st'" and v: "vecs st this = Some v"
  shows "\<exists>v'. vecs st' this = Some v' \<and> size' v' = size' v \<and>
           capacity' (data' v') = max n (capacity' (data' v)) \<and> next_addr st' \<le> Suc (next_addr st)"
proof (cases "n \<le> capacity' (data' v)")
  case True
  with run v show ?thesis
    by (auto simp: Reserve_shape bind_get_vec RawMemory_Capacity_def max_def)
next
  case False
  with run v have "with_new_arena this n (Reallocate ops this) st = Done u st'"
    by (simp add: Reserve_shape bind_get_vec RawMemory_Capacity_def)
  moreover have "\<forall>nd s1 s2. Reallocate ops this nd s1 = Done () s2 \<longrightarrow> keeps s1 s2"
    by (blast intro: Reallocate_keeps)
  ultimately show ?thesis
    using with_new_arena_Done_vecs [of this n "Reallocate ops this" st u st' v] v False
    by (auto simp: max_def)
qed

lemma Reserve_Thrown_vecs:
  assumes run: "Reserve ops this n st = Thrown e st'" and v: "vecs st this = Some v"
  shows "vecs st' = vecs st \<and> next_addr st' \<le> Suc (next_addr st)"
proof -
  from run v have "with_new_arena this n (Reallocate ops this) st = Thrown e st'"
    by (simp add: Reserve_shape bind_get_vec split: if_splits)
  moreover have "\<forall>nd s1 s2. Reallocate ops this nd s1 = Thrown e s2 \<longrightarrow> keeps s1 s2"
    by (blast intro: Reallocate_keeps)
  ultimately show ?thesis by (rule with_new_arena_Thrown_vecs)
qed

lemma Reserve_grows:
  assumes "final_state (Reserve ops this n st) = Some st'" and v: "vecs st this = Some v"
  shows "grows_from (capacity' (data' v)) this st st'"
  using assms(1)
proof (rule final_stateE)
  fix u assume "Reserve ops this n st = Done u st'"
  from Reserve_Done_vecs [OF this v] show ?thesis by (auto simp: grows_from_def)
next
  fix e assume "Reserve ops this n st = Thrown e st'"
  from Reserve_Thrown_vecs [OF this v] v show ?thesis by (auto simp: grows_from_def)
qed

lemma PushBack_with_Done_vecs:
  assumes run: "PushBack_with ops this mk st = Done u st'" and v: "vecs st this = Some v"
    and small: "size' v < 2 ^ 63"
  shows "\<exists>v'. vecs st' this = Some v' \<and> size' v' = Suc (size' v) \<and>
           capacity' (data' v') = (if capacity' (data' v) = size' v then max 1 (2 * size' v) else capacity' (data' v)) \<and>
           next_addr st' \<le> Suc (next_addr st)"
proof (cases "capacity' (data' v) = size' v")
  case True
  with run v obtain s1 where
    g: "with_new_arena this (if size' v = 0 then 1 else size_t (int (size' v) * 2))
               (\<lambda>new_data. bind (on_heap (construct mk (ptr_add (GetAddress new_data) (size' v)))) (\<lambda>u.
                      Reallocate ops this new_data)) st = Done () s1"
    and i: "incr_size this s1 = Done u st'"
    by (auto simp: PushBack_with_shape bind_get_vec RawMemory_Capacity_def elim!: bind_DoneE)
  have "\<forall>nd s1 s2. bind (on_heap (construct mk (ptr_add (GetAddress nd) (size' v)))) (\<lambda>u.
                      Reallocate ops this nd) s1 = Done () s2 \<longrightarrow> keeps s1 s2"
    by (blast intro: fill_construct_Reallocate_keeps)
  from with_new_arena_Done_vecs [OF g v this] i small True show ?thesis
    by (auto simp: incr_size_Done size_t_double size_t_Suc max_def)
next
  case False
  with run v small show ?thesis
    by (auto simp: PushBack_with_shape bind_get_vec RawMemory_Capacity_def RawMemory_plus_Done incr_size_Done
          on_heap_Done size_t_Suc elim!: bind_DoneE)
qed

lemma PushBack_with_Thrown_vecs:
  assumes run: "PushBack_with ops this mk st = Thrown e st'" and v: "vecs st this = Some v"
  shows "vecs st' = vecs st \<and> next_addr st' \<le> Suc (next_addr st)"
proof (cases "capacity' (data' v) = size' v")
  case True
  with run v have
    g: "with_new_arena this (if size' v = 0 then 1 else size_t (int (size' v) * 2))
               (\<lambda>new_data. bind (on_heap (construct mk (ptr_add (GetAddress new_data) (size' v)))) (\<lambda>u.
                      Reallocate ops this new_data)) st = Thrown e st'"
    by (auto simp: PushBack_with_shape bind_get_vec RawMemory_Capacity_def elim!: bind_ThrownE)
  have "\<forall>nd s1 s2. bind (on_heap (construct mk (ptr_add (GetAddress nd) (size' v)))) (\<lambda>u.
                      Reallocate ops this nd) s1 = Thrown e s2 \<longrightarrow> keeps s1 s2"
    by (blast intro: fill_construct_Reallocate_keeps)
  from with_new_arena_Thrown_vecs [OF g this] show ?thesis .
next
  case False
  with run v show ?thesis
    by (auto simp: PushBack_with_shape bind_get_vec RawMemory_Capacity_def RawMemory_plus_Done
          on_heap_Thrown elim!: bind_ThrownE)
qed

lemma PushBack_with_grows:
  assumes "final_state (PushBack_with ops this mk st) = Some st'" and v: "vecs st this = Some v"
    and small: "size' v < 2 ^ 63"
  shows "grows_from (capacity' (data' v)) this st st'"
  using assms(1)
proof (rule final_stateE)
  fix u assume "PushBack_with ops this mk st = Done u st'"
  from PushBack_with_Done_vecs [OF this v small] show ?thesis
    by (auto simp: grows_from_def max_def split: if_splits)
next
  fix e assume "PushBack_with ops this mk st = Thrown e st'"
  from PushBack_with_Thrown_vecs [OF this v] v show ?thesis by (auto simp: grows_from_def)
qed

lemma end_members_Done:
  "end_members w s = Done p s' \<longleftrightarrow> size' w \<le> capacity' (data' w) \<and> p = (buffer' (data' w), size' w) \<and> s' = s"
  by (auto simp: end_members_def RawMemory_plus_Done)

lemma EmplaceBack_Done_vecs:
  assumes run: "EmplaceBack ops this mk st = Done p st'" and v: "vecs st this = Some v"
    and small: "size' v < 2 ^ 63"
  shows "\<exists>v'. vecs st' this = Some v' \<and> size' v' = Suc (size' v) \<and>
           capacity' (data' v') = (if capacity' (data' v) = size' v then max 1 (2 * size' v) else capacity' (data' v)) \<and>
           next_addr st' \<le> Suc (next_addr st)"
proof (cases "capacity' (data' v) = size' v")
  case True
  with run v obtain s1 where
    g: "with_new_arena this (if size' v = 0 then 1 else size_t (int (size' v) * 2))
               (\<lambda>new_data. bind (RawMemory_plus new_data (size' v)) (\<lambda>p.
                      bind (on_heap (construct mk p)) (\<lambda>u.
                      Reallocate ops this new_data))) st = Done () s1"
    and i: "incr_size this s1 = Done () st'"
    by (auto simp: EmplaceBack_shape bind_get_vec RawMemory_Capacity_def end_members_Done ptr_add_int_Done
          elim!: bind_DoneE)
  have "\<forall>nd s1 s2. bind (RawMemory_plus nd (size' v)) (\<lambda>p.
                      bind (on_heap (construct mk p)) (\<lambda>u.
                      Reallocate ops this nd)) s1 = Done () s2 \<longrightarrow> keeps s1 s2"
    by (blast intro: fill_plus_construct_Reallocate_keeps)
  from with_new_arena_Done_vecs [OF g v this] i small True show ?thesis
    by (auto simp: incr_size_Done size_t_double size_t_Suc max_def)
next
  case False
  with run v small show ?thesis
    by (auto simp: EmplaceBack_shape bind_get_vec RawMemory_Capacity_def RawMemory_plus_Done incr_size_Done
          on_heap_Done size_t_Suc end_members_Done ptr_add_int_Done elim!: bind_DoneE)
qed

lemma EmplaceBack_Thrown_vecs:
  assumes run: "EmplaceBack ops this mk st = Thrown e st'" and v: "vecs st this = Some v"
  shows "vecs st' = vecs st \<and> next_addr st' \<le> Suc (next_addr st)"
proof (cases "capacity' (data' v) = size' v")
  case True
  with run v have
    g: "with_new_arena this (if size' v = 0 then 1 else size_t (int (size' v) * 2))
               (\<lambda>new_data. bind (RawMemory_plus new_data (size' v)) (\<lambda>p.
                      bind (on_heap (construct mk p)) (\<lambda>u.
                      Reallocate ops this new_data))) st = Thrown e st'"
    by (auto simp: EmplaceBack_shape bind_get_vec RawMemory_Capacity_def elim!: bind_ThrownE)
  have "\<forall>nd s1 s2. bind (RawMemory_plus nd (size' v)) (\<lambda>p.
                      bind (on_heap (construct mk p)) (\<lambda>u.
                      Reallocate ops this nd)) s1 = Thrown e s2 \<longrightarrow> keeps s1 s2"
    by (blast intro: fill_plus_construct_Reallocate_keeps)
  from with_new_arena_Thrown_vecs [OF g this] show ?thesis .
next
  case False
  with run v show ?thesis
    by (auto simp: EmplaceBack_shape bind_get_vec RawMemory_Capacity_def RawMemory_plus_Done
          on_heap_Thrown elim!: bind_ThrownE)
qed

lemma Emplace_Done_vecs:
  assumes run: "Emplace ops this pos mk st = Done p st'" and v: "vecs st this = Some v"
    and small: "size' v < 2 ^ 63"
  shows "\<exists>v'. vecs st' this = Some v' \<and> size' v' = Suc (size' v) \<and>
           capacity' (data' v') = (if capacity' (data' v) = size' v then max 1 (2 * size' v) else capacity' (data' v)) \<and>
           next_addr st' \<le> Suc (next_addr st)"
proof (cases "capacity' (data' v) = size' v")
  case True
  then have grow: "RawMemory_Capacity (data' v) = size' v" by (simp add: RawMemory_Capacity_def)
  from run obtain s1 where
    g: "with_new_arena this (if size' v = 0 then 1 else size_t (int (size' v) * 2))
             (\<lambda>new_data. bind (RawMemory_plus new_data (size_t (to_int (int pos)))) (\<lambda>p.
                    bind (on_heap (construct mk p)) (\<lambda>u.
                    Emplace_transfer ops v (to_int (int pos)) new_data))) st = Done () s1"
    and i: "incr_size this s1 = Done () st'"
    unfolding Emplace_grow_shape [OF v grow]
    by (auto simp: ptr_add_int_Done elim!: bind_DoneE)
  have "\<forall>nd s1 s2. bind (RawMemory_plus nd (size_t (to_int (int pos)))) (\<lambda>p.
                    bind (on_heap (construct mk p)) (\<lambda>u.
                    Emplace_transfer ops v (to_int (int pos)) nd)) s1 = Done () s2 \<longrightarrow> keeps s1 s2"
    by (blast intro: fill_Emplace_keeps)
  from with_new_arena_Done_vecs [OF g v this] i small True show ?thesis
    by (auto simp: incr_size_Done size_t_double size_t_Suc max_def)
next
  case False
  with run v small show ?thesis
    by (auto simp: Emplace_def Let_def bind_get_vec RawMemory_Capacity_def RawMemory_plus_Done incr_size_Done
          RawMemory_index_Done size_t_Suc end_members_Done ptr_add_int_Done keeps_def
          elim!: bind_DoneE dest!: on_heap_keeps split: option.splits)
qed

lemma Emplace_Thrown_vecs:
  assumes run: "Emplace ops this pos mk st = Thrown e st'" and v: "vecs st this = Some v"
  shows "vecs st' = vecs st \<and> next_addr st' \<le> Suc (next_addr st)"
proof (cases "capacity' (data' v) = size' v")
  case True
  then have grow: "RawMemory_Capacity (data' v) = size' v" by (simp add: RawMemory_Capacity_def)
  from run have
    g: "with_new_arena this (if size' v = 0 then 1 else size_t (int (size' v) * 2))
             (\<lambda>new_data. bind (RawMemory_plus new_data (size_t (to_int (int pos)))) (\<lambda>p.
                    bind (on_heap (construct mk p)) (\<lambda>u.
                    Emplace_transfer ops v (to_int (int pos)) new_data))) st = Thrown e st'"
    unfolding Emplace_grow_shape [OF v grow]
    by (auto elim!: bind_ThrownE)
  have "\<forall>nd s1 s2. bind (RawMemory_plus nd (size_t (to_int (int pos)))) (\<lambda>p.
                    bind (on_heap (construct mk p)) (\<lambda>u.
                    Emplace_transfer ops v (to_int (int pos)) nd)) s1 = Thrown e s2 \<longrightarrow> keeps s1 s2"
    by (blast intro: fill_Emplace_keeps)
  from with_new_arena_Thrown_vecs [OF g this] show ?thesis .
next
  case False
  with run v show ?thesis
    by (auto simp: Emplace_def Let_def bind_get_vec RawMemory_Capacity_def RawMemory_plus_Done
          RawMemory_index_Done end_members_Done ptr_add_int_Done keeps_def
          elim!: bind_DoneE bind_ThrownE dest!: on_heap_keeps split: option.splits)
qed

lemma Erase_vecs:
  assumes v: "vecs st this = Some v"
  shows "Erase ops this pos st = Done p st' \<Longrightarrow>
           \<exists>v'. vecs st' this = Some v' \<and> data' v' = data' v \<and> next_addr st' = next_addr st"
    and "Erase ops this pos st = Thrown e st' \<Longrightarrow> vecs st' = vecs st \<and> next_addr st' = next_addr st"
  using v
  by (auto simp: Erase_def Let_def bind_get_vec end_members_Done ptr_add_int_Done decr_size_Done keeps_def
        elim!: bind_DoneE bind_ThrownE dest!: on_heap_keeps)

lemma PopBack_vecs:
  assumes v: "vecs st this = Some v"
  shows "PopBack this st = Done u st' \<Longrightarrow>
           \<exists>v'. vecs st' this = Some v' \<and> data' v' = data' v \<and> next_addr st' = next_addr st"
    and "PopBack this st \<noteq> Thrown e st'"
  using v
  by (auto simp: PopBack_def bind_get_vec decr_size_Done elim!: bind_DoneE bind_ThrownE split: if_splits)

lemma Resize_grows:
  assumes fin: "final_state (Resize ops this n st) = Some st'" and v: "vecs st this = Some v"
  shows "grows_from (capacity' (data' v)) this st st'"
proof (cases "size' v = n")
  case True
  with fin v show ?thesis
    by (auto simp: Resize_def bind_get_vec grows_from_def ret_def)
next
  case ne: False
  show ?thesis
  proof (cases "n < size' v")
    case True
    with fin v ne show ?thesis
      by (auto simp: Resize_def bind_get_vec grows_from_def set_size_Done
            elim!: final_stateE bind_DoneE bind_ThrownE)
  next
    case False
    with fin v ne have
      r: "final_state (bind (bind (Reserve ops this n) (\<lambda>u.
                 bind (get_vec this) (\<lambda>w.
                 on_heap (uninitialized_value_construct_n ops
                            (ptr_add (GetAddress (data' w)) (size' w)) (n - size' w))))) (\<lambda>u.
         set_size this n) st) = Some st'"
      by (simp add: Resize_def bind_get_vec)
    then show ?thesis
    proof (rule final_stateE)
      fix x
      assume "bind (bind (Reserve ops this n) (\<lambda>u.
                 bind (get_vec this) (\<lambda>w.
                 on_heap (uninitialized_value_construct_n ops
                            (ptr_add (GetAddress (data' w)) (size' w)) (n - size' w))))) (\<lambda>u.
         set_size this n) st = Done x st'"
      then obtain s1 s2 where a: "Reserve ops this n st = Done () s1"
        and b: "keeps s1 s2" and c: "set_size this n s2 = Done x st'"
        by (auto elim!: bind_DoneE dest!: on_heap_keeps)
      from Reserve_Done_vecs [OF a v] b c show ?thesis
        by (auto simp: grows_from_def keeps_def set_size_Done)
    next
      fix e
      assume "bind (bind (Reserve ops this n) (\<lambda>u.
                 bind (get_vec this) (\<lambda>w.
                 on_heap (uninitialized_value_construct_n ops
                            (ptr_add (GetAddress (data' w)) (size' w)) (n - size' w))))) (\<lambda>u.
         set_size this n) st = Thrown e st'"
      then consider "Reserve ops this n st = Thrown e st'"
        | s1 where "Reserve ops this n st = Done () s1" "keeps s1 st'"
        by (auto elim!: bind_ThrownE bind_DoneE dest!: on_heap_keeps)
      then show ?thesis
      proof cases
        case 1
        from Reserve_Thrown_vecs [OF 1 v] v show ?thesis by (auto simp: grows_from_def)
      next
        case 2
        from Reserve_Done_vecs [OF 2(1) v] 2(2) show ?thesis
          by (auto simp: grows_from_def keeps_def)
      qed
    qed
  qed
qed

lemma Vector_copy_members_vecs:
  "Vector_copy_members ops r s = Done c s' \<Longrightarrow>
     capacity' (data' c) = size' r \<and> vecs s' = vecs s \<and> next_addr s' \<le> Suc (next_addr s)"
  "Vector_copy_members ops r s = Thrown e s' \<Longrightarrow> vecs s' = vecs s \<and> next_addr s' \<le> Suc (next_addr s)"
  unfolding Vector_copy_members_def
  by (auto elim!: bind_DoneE bind_ThrownE unwinding_DoneE unwinding_ThrownE
        simp: RawMemory_Done RawMemory_Thrown keeps_def
        dest!: on_heap_keeps RawMemory_dtor_keeps split: if_splits)

lemma Vector_dtor_members_keeps:
  "Vector_dtor_members v s = Done u s' \<Longrightarrow> keeps s s'"
  "Vector_dtor_members v s \<noteq> Thrown e s'"
  unfolding Vector_dtor_members_def Destroy_members_def
  by (auto elim!: bind_DoneE bind_ThrownE dest!: RawMemory_dtor_keeps simp: keeps_def)

lemma Vector_assign_grows:
  assumes fin: "final_state (Vector_assign ops this rhs st) = Some st'" and v: "vecs st this = Some v"
  shows "grows_from (capacity' (data' v)) this st st'"
proof (cases "this = rhs")
  case True
  with fin v show ?thesis by (auto simp: Vector_assign_def grows_from_def ret_def)
next
  case False
  with fin v show ?thesis
    by (auto simp: Vector_assign_def bind_get_vec grows_from_def RawMemory_Capacity_def set_size_Done keeps_def
          Vector_dtor_members_keeps
          elim!: final_stateE bind_DoneE bind_ThrownE
          dest!: on_heap_keeps Vector_copy_members_vecs Vector_dtor_members_keeps(1)
          split: if_splits)
qed

lemma Erase_grows:
  assumes fin: "final_state (Erase ops this pos st) = Some st'" and v: "vecs st this = Some v"
  shows "grows_from (capacity' (data' v)) this st st'"
  using fin v Erase_vecs [OF v, of ops pos _ st']
  by (auto simp: grows_from_def elim!: final_stateE)

lemma PopBack_grows:
  assumes fin: "final_state (PopBack this st) = Some st'" and v: "vecs st this = Some v"
  shows "grows_from (capacity' (data' v)) this st st'"
  using fin v PopBack_vecs [OF v, of _ st']
  by (auto simp: grows_from_def elim!: final_stateE)

lemma EmplaceBack_grows:
  assumes "final_state (EmplaceBack ops this mk st) = Some st'" and v: "vecs st this = Some v"
    and small: "size' v < 2 ^ 63"
  shows "grows_from (capacity' (data' v)) this st st'"
  using assms(1)
proof (rule final_stateE)
  fix p assume "EmplaceBack ops this mk st = Done p st'"
  from EmplaceBack_Done_vecs [OF this v small] show ?thesis
    by (auto simp: grows_from_def max_def split: if_splits)
next
  fix e assume "EmplaceBack ops this mk st = Thrown e st'"
  from EmplaceBack_Thrown_vecs [OF this v] v show ?thesis by (auto simp: grows_from_def)
qed

lemma Emplace_grows:
  assumes "final_state (Emplace ops this pos mk st) = Some st'" and v: "vecs st this = Some v"
    and small: "size' v < 2 ^ 63"
  shows "grows_from (capacity' (data' v)) this st st'"
  using assms(1)
proof (rule final_stateE)
  fix p assume "Emplace ops this pos mk st = Done p st'"
  from Emplace_Done_vecs [OF this v small] show ?thesis
    by (auto simp: grows_from_def max_def split: if_splits)
next
  fix e assume "Emplace ops this pos mk st = Thrown e st'"
  from Emplace_Thrown_vecs [OF this v] v show ?thesis by (auto simp: grows_from_def)
qed


section \<open>Copying and moving ranges of elements\<close>

lemma overwrite_Nil [simp]: "overwrite j [] blk = blk"
  by (simp add: overwrite_def)

lemma overwrite_Cons:
  assumes "j < length blk"
  shows "overwrite (Suc j) ys (blk[j := y]) = overwrite j (y # ys) blk"
proof -
  have "take (Suc j) (blk[j := y]) = take j blk @ [y]"
    using assms by (simp add: take_Suc_conv_app_nth)
  then show ?thesis
    by (simp add: overwrite_def)
qed

lemma length_overwrite: "j + length ys \<le> length blk \<Longrightarrow> length (overwrite j ys blk) = length blk"
  by (simp add: overwrite_def)

lemma load_block:
  "h a = Some blk \<Longrightarrow>
     load h (Some a, i) = (if i < length blk then (case blk ! i of Obj x \<Rightarrow> Some x | Raw \<Rightarrow> None) else None)"
  by (simp add: load_def)

lemma store_block:
  "h a = Some blk \<Longrightarrow> store h (Some a, i) s = (if i < length blk then Some (h(a \<mapsto> blk[i := s])) else None)"
  by (simp add: store_def)

lemma ptr_add_Some [simp]: "ptr_add (b, i) n = (b, i + n)"
  by (simp add: ptr_add_def)

lemma unwinding_of_Done: "m s = Done r s' \<Longrightarrow> unwinding m c s = Done r s'"
  by (simp add: unwinding_def)

lemma bind_of_Done: "m s = Done r s1 \<Longrightarrow> bind m f s = f r s1"
  by (simp add: bind_def)

lemma uninitialized_copy_n_Done:
  assumes "h a = Some ablk" and "h b = Some bblk" and "a \<noteq> b"
    and "\<And>k. k < length xs \<Longrightarrow> i + k < length ablk \<and> ablk ! (i + k) = Obj (xs ! k)"
    and "map (copy_ctor ops) xs = map Some ys"
    and "j + length xs \<le> length bblk"
  shows "uninitialized_copy_n ops (Some a, i) (length xs) (Some b, j) h
           = Done () (h(b \<mapsto> overwrite j (map Obj ys) bblk))"
  using assms
proof (induction xs arbitrary: ys i j h bblk)
  case Nil
  from Nil.prems(2) have "h(b \<mapsto> bblk) = h" by (rule fun_upd_idem)
  with Nil.prems(5) show ?case by (simp add: ret_def)
next
  case (Cons x xs)
  from Cons.prems(5) obtain y ys' where ys: "ys = y # ys'" and y: "copy_ctor ops x = Some y"
    and rest: "map (copy_ctor ops) xs = map Some ys'"
    by (cases ys) auto
  from Cons.prems(4) [of 0] have x: "i < length ablk" "ablk ! i = Obj x" by auto
  from Cons.prems(6) have j: "j < length bblk" by simp
  let ?h1 = "h(b \<mapsto> bblk[j := Obj y])"
  have first: "copy_construct_at ops (Some b, j) (Some a, i) h = Done () ?h1"
    using Cons.prems(1,2) x j y
    by (simp add: copy_construct_at_def bind_def read_obj_def load_block construct_def write_obj_def store_block)
  have src: "\<And>k. k < length xs \<Longrightarrow> Suc i + k < length ablk \<and> ablk ! (Suc i + k) = Obj (xs ! k)"
    using Cons.prems(4) by force
  have "uninitialized_copy_n ops (Some a, Suc i) (length xs) (Some b, Suc j) ?h1
          = Done () (?h1(b \<mapsto> overwrite (Suc j) (map Obj ys') (bblk[j := Obj y])))"
    using Cons.prems(1,3,6) src rest
    by (intro Cons.IH) simp_all
  then have "uninitialized_copy_n ops (Some a, Suc i) (length xs) (Some b, Suc j) ?h1
          = Done () (h(b \<mapsto> overwrite j (map Obj ys) bblk))"
    using j by (simp add: overwrite_Cons ys)
  then have "unwinding (uninitialized_copy_n ops (Some a, Suc i) (length xs) (Some b, Suc j)) (destroying (Some b, j)) ?h1
          = Done () (h(b \<mapsto> overwrite j (map Obj ys) bblk))"
    by (rule unwinding_of_Done)
  moreover have "uninitialized_copy_n ops (Some a, i) (length (x # xs)) (Some b, j) h
      = unwinding (uninitialized_copy_n ops (Some a, Suc i) (length xs) (Some b, Suc j)) (destroying (Some b, j)) ?h1"
    by (simp add: bind_def first)
  ultimately show ?case by (simp only:)
qed

lemma uninitialized_move_n_Done:
  assumes "h a = Some ablk" and "h b = Some bblk" and "a \<noteq> b"
    and "\<And>k. k < length xs \<Longrightarrow> i + k < length ablk \<and> ablk ! (i + k) = Obj (xs ! k)"
    and "map (move_ctor ops) xs = map Some ms"
    and "j + length xs \<le> length bblk"
  shows "uninitialized_move_n ops (Some a, i) (length xs) (Some b, j) h
           = Done () (h(a \<mapsto> overwrite i (map (\<lambda>m. Obj (snd m)) ms) ablk,
                        b \<mapsto> overwrite j (map (\<lambda>m. Obj (fst m)) ms) bblk))"
  using assms
proof (induction xs arbitrary: ms i j h ablk bblk)
  case Nil
  have "uninitialized_move_n ops (Some a, i) (length []) (Some b, j) h = Done () h"
    by (simp add: ret_def)
  moreover from Nil.prems(1,2,3,5) have "h(a \<mapsto> overwrite i (map (\<lambda>m. Obj (snd m)) ms) ablk,
                        b \<mapsto> overwrite j (map (\<lambda>m. Obj (fst m)) ms) bblk) = h"
    by (simp add: fun_upd_idem)
  ultimately show ?case by (simp only:)
next
  case (Cons x xs)
  from Cons.prems(5) obtain y x' ms' where ms: "ms = (y, x') # ms'" and y: "move_ctor ops x = Some (y, x')"
    and rest: "map (move_ctor ops) xs = map Some ms'"
    by (cases ms) auto
  from Cons.prems(4) [of 0] have x: "i < length ablk" "ablk ! i = Obj x" by auto
  from Cons.prems(6) have j: "j < length bblk" by simp
  let ?h1 = "h(a \<mapsto> ablk[i := Obj x'], b \<mapsto> bblk[j := Obj y])"
  have first: "move_construct_at ops (Some b, j) (Some a, i) h = Done () ?h1"
    using Cons.prems(1,2,3) x j y
    by (simp add: move_construct_at_def bind_def read_obj_def load_block write_obj_def store_block)
  have src: "\<And>k. k < length xs \<Longrightarrow>
               Suc i + k < length (ablk[i := Obj x']) \<and> (ablk[i := Obj x']) ! (Suc i + k) = Obj (xs ! k)"
    using Cons.prems(4) by force
  have "uninitialized_move_n ops (Some a, Suc i) (length xs) (Some b, Suc j) ?h1
          = Done () (?h1(a \<mapsto> overwrite (Suc i) (map (\<lambda>m. Obj (snd m)) ms') (ablk[i := Obj x']),
                         b \<mapsto> overwrite (Suc j) (map (\<lambda>m. Obj (fst m)) ms') (bblk[j := Obj y])))"
    using Cons.prems(3,6) src rest
    by (intro Cons.IH) simp_all
  then have "uninitialized_move_n ops (Some a, Suc i) (length xs) (Some b, Suc j) ?h1
          = Done () (h(a \<mapsto> overwrite i (map (\<lambda>m. Obj (snd m)) ms) ablk,
                        b \<mapsto> overwrite j (map (\<lambda>m. Obj (fst m)) ms) bblk))"
    using j x Cons.prems(3) by (simp add: overwrite_Cons ms fun_upd_twist)
  then have "unwinding (uninitialized_move_n ops (Some a, Suc i) (length xs) (Some b, Suc j)) (destroying (Some b, j)) ?h1
          = Done () (h(a \<mapsto> overwrite i (map (\<lambda>m. Obj (snd m)) ms) ablk,
                        b \<mapsto> overwrite j (map (\<lambda>m. Obj (fst m)) ms) bblk))"
    by (rule unwinding_of_Done)
  moreover have "uninitialized_move_n ops (Some a, i) (length (x # xs)) (Some b, j) h
      = unwinding (uninitialized_move_n ops (Some a, Suc i) (length xs) (Some b, Suc j)) (destroying (Some b, j)) ?h1"
    by (simp add: bind_def first)
  ultimately show ?case by (simp only:)
qed

lemma copy_n_Done:
  assumes "h a = Some ablk" and "h b = Some bblk" and "a \<noteq> b"
    and "\<And>k. k < length xs \<Longrightarrow> i + k < length ablk \<and> ablk ! (i + k) = Obj (xs ! k)"
    and "\<And>k. k < length xs \<Longrightarrow> j + k < length bblk \<and> bblk ! (j + k) = Obj (ds ! k)"
    and "length ds = length xs"
    and "map (\<lambda>(d, x). copy_assign ops d x) (zip ds xs) = map Some ys"
  shows "copy_n ops (Some a, i) (length xs) (Some b, j) h
           = Done () (h(b \<mapsto> overwrite j (map Obj ys) bblk))"
  using assms
proof (induction xs arbitrary: ds ys i j h bblk)
  case Nil
  from Nil.prems(2) have "h(b \<mapsto> bblk) = h" by (rule fun_upd_idem)
  with Nil.prems(6,7) show ?case by (simp add: ret_def)
next
  case (Cons x xs)
  from Cons.prems(6) obtain d ds' where ds: "ds = d # ds'" and len: "length ds' = length xs"
    by (cases ds) auto
  from Cons.prems(7) ds obtain y ys' where ys: "ys = y # ys'" and y: "copy_assign ops d x = Some y"
    and rest: "map (\<lambda>(d, x). copy_assign ops d x) (zip ds' xs) = map Some ys'"
    by (cases ys) auto
  from Cons.prems(4) [of 0] have x: "i < length ablk" "ablk ! i = Obj x" by auto
  from Cons.prems(5) [of 0] ds have j: "j < length bblk" "bblk ! j = Obj d" by auto
  let ?h1 = "h(b \<mapsto> bblk[j := Obj y])"
  have first: "assign_copy ops (Some b, j) (Some a, i) h = Done () ?h1"
    using Cons.prems(1,2) x j y
    by (simp add: assign_copy_def bind_def read_obj_def load_block write_obj_def store_block)
  have src: "\<And>k. k < length xs \<Longrightarrow> Suc i + k < length ablk \<and> ablk ! (Suc i + k) = Obj (xs ! k)"
    using Cons.prems(4) by force
  have dst: "\<And>k. k < length xs \<Longrightarrow>
               Suc j + k < length (bblk[j := Obj y]) \<and> (bblk[j := Obj y]) ! (Suc j + k) = Obj (ds' ! k)"
    using Cons.prems(5) ds by force
  have "copy_n ops (Some a, Suc i) (length xs) (Some b, Suc j) ?h1
          = Done () (?h1(b \<mapsto> overwrite (Suc j) (map Obj ys') (bblk[j := Obj y])))"
    using Cons.prems(1,3) src dst len rest
    by (intro Cons.IH) simp_all
  then have "copy_n ops (Some a, Suc i) (length xs) (Some b, Suc j) ?h1
          = Done () (h(b \<mapsto> overwrite j (map Obj ys) bblk))"
    using j by (simp add: overwrite_Cons ys)
  moreover have "copy_n ops (Some a, i) (length (x # xs)) (Some b, j) h
      = copy_n ops (Some a, Suc i) (length xs) (Some b, Suc j) ?h1"
    by (simp add: bind_def first)
  ultimately show ?case by (simp only:)
qed

lemma destroy_n_block:
  assumes "h b = Some bblk" and "j + n \<le> length bblk"
  shows "destroy_n (Some b, j) n h = h(b \<mapsto> overwrite j (replicate n Raw) bblk)"
  using assms
proof (induction n arbitrary: j h bblk)
  case 0
  then show ?case by (simp add: fun_upd_idem)
next
  case (Suc n)
  let ?h1 = "h(b \<mapsto> bblk[j := Raw])"
  from Suc.prems have j: "j < length bblk" by simp
  with Suc.prems have first: "destroy_at (Some b, j) h = ?h1"
    by (simp add: destroy_at_def store_block)
  have "destroy_n (Some b, Suc j) n ?h1 = ?h1(b \<mapsto> overwrite (Suc j) (replicate n Raw) (bblk[j := Raw]))"
    using Suc.prems by (intro Suc.IH) simp_all
  then have "destroy_n (Some b, Suc j) n ?h1 = h(b \<mapsto> overwrite j (replicate (Suc n) Raw) bblk)"
    using j by (simp add: overwrite_Cons)
  then show ?case by (simp add: first)
qed

lemma destroy_n_zero [simp]: "destroy_n p 0 h = h"
  by simp

section \<open>Copy assignment, step by step\<close>

lemma holds_size: "holds st v xs \<Longrightarrow> size' v = length xs \<and> length xs \<le> capacity' (data' v)"
  by (simp add: holds_def)

lemma holds_block:
  "holds st v xs \<Longrightarrow> buffer' (data' v) = Some a \<Longrightarrow>
     blocks st a = Some (map Obj xs @ replicate (capacity' (data' v) - length xs) Raw)"
  by (simp add: holds_def)

lemma holds_buffer: "holds st v xs \<Longrightarrow> 0 < capacity' (data' v) \<Longrightarrow> \<exists>a. buffer' (data' v) = Some a"
  by (cases "buffer' (data' v)") (auto simp: holds_def)

lemma holds_same_block:
  assumes "holds st v xs" and "\<And>a. buffer' (data' v) = Some a \<Longrightarrow> blocks st' a = blocks st a"
  shows "holds st' v xs"
  using assms by (auto simp: holds_def split: option.splits)

lemma list_all2_assign:
  "list_all2 (\<lambda>d x. f d x = Some x) ds xs \<Longrightarrow> map (\<lambda>(d, x). f d x) (zip ds xs) = map Some xs"
  by (induction ds xs rule: list_all2_induct) auto

lemma list_all_ctor: "list_all (\<lambda>x. f x = Some x) xs \<Longrightarrow> map f xs = map Some xs"
  by (induction xs) auto

lemma live_nth:
  "k < length xs \<Longrightarrow> (map Obj xs @ replicate c Raw) ! k = Obj (xs ! k)"
  by (simp add: nth_append)

lemma on_heap_noexcept_at:
  "f h = h' \<Longrightarrow> on_heap_noexcept f (st\<lparr>blocks := h\<rparr>) = Done () (st\<lparr>blocks := h'\<rparr>)"
  by (simp add: on_heap_noexcept_def)

lemma on_heap_at:
  "m h = Done r h' \<Longrightarrow> on_heap m (st\<lparr>blocks := h\<rparr>) = Done r (st\<lparr>blocks := h'\<rparr>)"
  by (simp add: on_heap_def)

lemma on_heap_start:
  "m (blocks st) = Done r h' \<Longrightarrow> on_heap m st = Done r (st\<lparr>blocks := h'\<rparr>)"
  by (simp add: on_heap_def)

lemma bind_Done_eq: "m s = Done r s1 \<Longrightarrow> f r s1 = res \<Longrightarrow> bind m f s = res"
  by (simp add: bind_def)

lemma set_size_at:
  "vecs st this = Some v \<Longrightarrow>
     set_size this n (st\<lparr>blocks := h\<rparr>) =
       Done () (st\<lparr>blocks := h, vecs := (vecs st)(this \<mapsto> \<lparr>data' = data' v, size' = n\<rparr>)\<rparr>)"
  by (simp add: set_size_def bind_def get_vec_def put_vec_def)

lemma Vector_assign_in_place:
  assumes ne: "this \<noteq> rhs" and v: "vecs st this = Some v" and r: "vecs st rhs = Some r"
    and hv: "holds st v ls" and hr: "holds st r rs"
    and distinct: "buffer' (data' v) = None \<or> buffer' (data' v) \<noteq> buffer' (data' r)"
    and fits: "length rs \<le> capacity' (data' v)"
    and pre: "list_all2 (\<lambda>d x. copy_assign ops d x = Some x) (take (length rs) ls) (take (length ls) rs)"
    and suf: "list_all (\<lambda>x. copy_ctor ops x = Some x) (drop (length ls) rs)"
  shows "\<exists>st'. Vector_assign ops this rhs st = Done () st' \<and>
           vecs st' this = Some \<lparr>data' = data' v, size' = length rs\<rparr> \<and>
           holds st' \<lparr>data' = data' v, size' = length rs\<rparr> rs \<and>
           vecs st' rhs = Some r \<and> holds st' r rs \<and> next_addr st' = next_addr st"
proof -
  from hv have sv: "size' v = length ls" "length ls \<le> capacity' (data' v)" by (simp_all add: holds_def)
  from hr have sr: "size' r = length rs" "length rs \<le> capacity' (data' r)" by (simp_all add: holds_def)
  let ?cv = "capacity' (data' v)"
  let ?v' = "\<lparr>data' = data' v, size' = length rs\<rparr>"
  let ?fin = "\<lambda>h. st\<lparr>blocks := h, vecs := (vecs st)(this \<mapsto> ?v')\<rparr>"
  have shape: "Vector_assign ops this rhs st =
      bind (on_heap (copy_n ops (buffer' (data' r), 0) (min (length ls) (length rs)) (buffer' (data' v), 0))) (\<lambda>u.
      bind (if length rs < length ls
            then on_heap_noexcept (destroy_n (buffer' (data' v), length rs) (length ls - length rs))
            else on_heap (uninitialized_copy_n ops (buffer' (data' r), length ls)
                            (length rs - length ls) (buffer' (data' v), length ls))) (\<lambda>u.
      set_size this (length rs))) st"
    using ne v r fits sv sr
    by (simp add: Vector_assign_def bind_get_vec RawMemory_Capacity_def GetAddress_def)
  show ?thesis
  proof (cases "rs = []")
    case True
    show ?thesis
    proof (cases "ls = []")
      case lsn: True
      have "Vector_assign ops this rhs st = Done () (?fin (blocks st))"
        using True lsn v
        by (simp add: shape bind_def on_heap_def ret_def set_size_def get_vec_def put_vec_def)
      moreover have "holds (?fin (blocks st)) ?v' rs"
        using hv True lsn by (auto simp: holds_def split: option.splits)
      moreover have "holds (?fin (blocks st)) r rs"
        using hr by (auto simp: holds_def split: option.splits)
      ultimately show ?thesis using r ne by auto
    next
      case lsn: False
      with sv have "0 < ?cv" by (cases ls) auto
      with hv obtain a where a: "buffer' (data' v) = Some a" by (blast dest: holds_buffer)
      from holds_block [OF hv a] have blk: "blocks st a = Some (map Obj ls @ replicate (?cv - length ls) Raw)" .
      let ?h = "(blocks st)(a \<mapsto> replicate ?cv Raw)"
      have "destroy_n (Some a, 0) (length ls) (blocks st)
              = (blocks st)(a \<mapsto> overwrite 0 (replicate (length ls) Raw) (map Obj ls @ replicate (?cv - length ls) Raw))"
        using blk sv by (intro destroy_n_block) simp_all
      also have "overwrite 0 (replicate (length ls) Raw) (map Obj ls @ replicate (?cv - length ls) Raw)
                   = replicate ?cv Raw"
        using sv by (simp add: overwrite_def replicate_add [symmetric])
      finally have d: "destroy_n (Some a, 0) (length ls) (blocks st) = ?h" .
      have "Vector_assign ops this rhs st = Done () (?fin ?h)"
        using True lsn v a d
        by (simp add: shape bind_def on_heap_def on_heap_noexcept_def ret_def set_size_def get_vec_def put_vec_def)
      moreover have "holds (?fin ?h) ?v' rs"
        using True a by (auto simp: holds_def split: option.splits)
      moreover have "holds (?fin ?h) r rs"
        using hr True distinct a by (auto simp: holds_def split: option.splits)
      ultimately show ?thesis using r ne by auto
    qed
  next
    case False
    with sr fits have "0 < capacity' (data' r)" "0 < ?cv" by (cases rs; simp)+
    with hv hr obtain a b where a: "buffer' (data' v) = Some a" and b: "buffer' (data' r) = Some b"
      by (blast dest: holds_buffer)
    with distinct have ab: "b \<noteq> a" by auto
    let ?blkv = "map Obj ls @ replicate (?cv - length ls) Raw"
    let ?blkr = "map Obj rs @ replicate (capacity' (data' r) - length rs) Raw"
    from holds_block [OF hv a] have blkv: "blocks st a = Some ?blkv" .
    from holds_block [OF hr b] have blkr: "blocks st b = Some ?blkr" .
    let ?m = "min (length ls) (length rs)"
    let ?xs = "take (length ls) rs"
    let ?blk1 = "overwrite 0 (map Obj ?xs) ?blkv"
    let ?h1 = "(blocks st)(a \<mapsto> ?blk1)"
    have lenx: "length ?xs = ?m" by simp
    have "copy_n ops (Some b, 0) (length ?xs) (Some a, 0) (blocks st) = Done () ?h1"
    proof (rule copy_n_Done [OF blkr blkv ab, where ds = "take (length rs) ls"])
      show "0 + k < length ?blkr \<and> ?blkr ! (0 + k) = Obj (?xs ! k)" if "k < length ?xs" for k
        using that sr by (simp add: nth_append)
      show "0 + k < length ?blkv \<and> ?blkv ! (0 + k) = Obj (take (length rs) ls ! k)" if "k < length ?xs" for k
        using that sv by (simp add: nth_append)
      show "length (take (length rs) ls) = length ?xs" by (simp add: min.commute)
      show "map (\<lambda>(d, x). copy_assign ops d x) (zip (take (length rs) ls) ?xs) = map Some ?xs"
        using pre by (rule list_all2_assign)
    qed
    then have step1: "copy_n ops (Some b, 0) ?m (Some a, 0) (blocks st) = Done () ?h1"
      by (simp only: lenx)
    have blk1: "?blk1 = map Obj ?xs @ drop ?m ?blkv"
      by (simp add: overwrite_def min.commute)
    let ?blk2 = "map Obj rs @ replicate (?cv - length rs) Raw"
    let ?h2 = "(blocks st)(a \<mapsto> ?blk2)"
    have step2: "(if length rs < length ls
            then on_heap_noexcept (destroy_n (Some a, length rs) (length ls - length rs))
            else on_heap (uninitialized_copy_n ops (Some b, length ls)
                            (length rs - length ls) (Some a, length ls))) (st\<lparr>blocks := ?h1\<rparr>)
          = Done () (st\<lparr>blocks := ?h2\<rparr>)"
    proof (cases "length rs < length ls")
      case True
      have "destroy_n (Some a, length rs) (length ls - length rs) ?h1
              = ?h1(a \<mapsto> overwrite (length rs) (replicate (length ls - length rs) Raw) ?blk1)"
        using True sv by (intro destroy_n_block) (simp_all add: overwrite_def)
      also have "overwrite (length rs) (replicate (length ls - length rs) Raw) ?blk1 = ?blk2"
        using True sv fits
        by (simp add: overwrite_def min_def replicate_add [symmetric])
      also have "?h1(a \<mapsto> ?blk2) = ?h2" by simp
      finally have "on_heap_noexcept (destroy_n (Some a, length rs) (length ls - length rs)) (st\<lparr>blocks := ?h1\<rparr>)
                      = Done () (st\<lparr>blocks := ?h2\<rparr>)"
        by (rule on_heap_noexcept_at)
      with True show ?thesis by (simp only: if_True)
    next
      case ge: False
      let ?ys = "drop (length ls) rs"
      have "uninitialized_copy_n ops (Some b, length ls) (length ?ys) (Some a, length ls) ?h1
              = Done () (?h1(a \<mapsto> overwrite (length ls) (map Obj ?ys) ?blk1))"
      proof (rule uninitialized_copy_n_Done [where ablk = ?blkr])
        show "?h1 b = Some ?blkr" using blkr ab by simp
        show "?h1 a = Some ?blk1" by simp
        show "b \<noteq> a" by (rule ab)
        show "length ls + k < length ?blkr \<and> ?blkr ! (length ls + k) = Obj (?ys ! k)" if "k < length ?ys" for k
        proof -
          from that have "length ls + k < length rs" by simp
          then show ?thesis using sr by (simp add: nth_append)
        qed
        show "map (copy_ctor ops) ?ys = map Some ?ys" using suf by (rule list_all_ctor)
        show "length ls + length ?ys \<le> length ?blk1" using ge sv fits by (simp add: overwrite_def)
      qed
      moreover have "overwrite (length ls) (map Obj ?ys) ?blk1 = ?blk2"
      proof -
        from ge have m: "?m = length ls" by simp
        have "map Obj rs = map Obj (take (length ls) rs) @ map Obj ?ys"
          by (simp flip: map_append)
        then show ?thesis
          using ge sv fits by (simp add: overwrite_def m)
      qed
      moreover have "?h1(a \<mapsto> ?blk2) = ?h2" by simp
      moreover have "length ?ys = length rs - length ls" by simp
      ultimately have "uninitialized_copy_n ops (Some b, length ls) (length rs - length ls) (Some a, length ls) ?h1
              = Done () ?h2"
        by (simp only:)
      then have "on_heap (uninitialized_copy_n ops (Some b, length ls) (length rs - length ls) (Some a, length ls))
                   (st\<lparr>blocks := ?h1\<rparr>) = Done () (st\<lparr>blocks := ?h2\<rparr>)"
        by (rule on_heap_at)
      with ge show ?thesis by (simp only: if_False)
    qed
    have s1: "on_heap (copy_n ops (Some b, 0) ?m (Some a, 0)) st = Done () (st\<lparr>blocks := ?h1\<rparr>)"
      using step1 by (rule on_heap_start)
    have s3: "set_size this (length rs) (st\<lparr>blocks := ?h2\<rparr>) = Done () (?fin ?h2)"
      using v by (rule set_size_at)
    have "Vector_assign ops this rhs st = Done () (?fin ?h2)"
      unfolding shape a b
      by (rule bind_Done_eq, rule s1, rule bind_Done_eq, rule step2, rule s3)
    moreover have "holds (?fin ?h2) ?v' rs"
      using a fits by (auto simp: holds_def split: option.splits)
    moreover have "holds (?fin ?h2) r rs"
      using hr ab b by (auto simp: holds_def split: option.splits)
    ultimately show ?thesis using r ne by auto
  qed
qed

lemma RawMemory_at:
  "k \<noteq> 0 \<Longrightarrow> k \<le> free_slots st \<Longrightarrow>
     RawMemory k st = Done \<lparr>buffer' = Some (next_addr st), capacity' = k\<rparr>
       (st\<lparr>blocks := (blocks st)(next_addr st \<mapsto> replicate k Raw),
           next_addr := Suc (next_addr st), free_slots := free_slots st - k\<rparr>)"
  by (simp add: RawMemory_Done)

lemma Vector_copy_members_Done:
  assumes hr: "holds st r rs" and ne: "rs \<noteq> []" and room: "length rs \<le> free_slots st"
    and ok: "list_all (\<lambda>x. copy_ctor ops x = Some x) rs"
    and fresh: "blocks st (next_addr st) = None"
  shows "Vector_copy_members ops r st =
           Done \<lparr>data' = \<lparr>buffer' = Some (next_addr st), capacity' = length rs\<rparr>, size' = length rs\<rparr>
             (st\<lparr>blocks := (blocks st)(next_addr st \<mapsto> map Obj rs),
                 next_addr := Suc (next_addr st), free_slots := free_slots st - length rs\<rparr>)"
proof -
  let ?n = "length rs" and ?b = "next_addr st"
  from hr have sr: "size' r = ?n" "?n \<le> capacity' (data' r)" by (simp_all add: holds_def)
  from ne sr have "0 < capacity' (data' r)" by (cases rs) auto
  with hr obtain c where c: "buffer' (data' r) = Some c" by (blast dest: holds_buffer)
  let ?blkr = "map Obj rs @ replicate (capacity' (data' r) - ?n) Raw"
  from holds_block [OF hr c] have blkr: "blocks st c = Some ?blkr" .
  with fresh have cb: "c \<noteq> ?b" by auto
  let ?nd = "\<lparr>buffer' = Some ?b, capacity' = ?n\<rparr>"
  let ?h1 = "(blocks st)(?b \<mapsto> replicate ?n Raw)"
  let ?st1 = "st\<lparr>blocks := ?h1, next_addr := Suc ?b, free_slots := free_slots st - ?n\<rparr>"
  let ?h2 = "(blocks st)(?b \<mapsto> map Obj rs)"
  let ?st2 = "st\<lparr>blocks := ?h2, next_addr := Suc ?b, free_slots := free_slots st - ?n\<rparr>"
  have a1: "RawMemory (size' r) st = Done ?nd ?st1"
    unfolding sr using ne room by (intro RawMemory_at) simp_all
  have "uninitialized_copy_n ops (Some c, 0) (length rs) (Some ?b, 0) ?h1
          = Done () (?h1(?b \<mapsto> overwrite 0 (map Obj rs) (replicate ?n Raw)))"
  proof (rule uninitialized_copy_n_Done [where ablk = ?blkr])
    show "?h1 c = Some ?blkr" using blkr cb by simp
    show "?h1 ?b = Some (replicate ?n Raw)" by simp
    show "c \<noteq> ?b" by (rule cb)
    show "0 + k < length ?blkr \<and> ?blkr ! (0 + k) = Obj (rs ! k)" if "k < length rs" for k
      using that sr by (simp add: nth_append)
    show "map (copy_ctor ops) rs = map Some rs" using ok by (rule list_all_ctor)
    show "0 + length rs \<le> length (replicate ?n Raw)" by simp
  qed
  moreover have "?h1(?b \<mapsto> overwrite 0 (map Obj rs) (replicate ?n Raw)) = ?h2"
    by (simp add: overwrite_def)
  ultimately have "uninitialized_copy_n ops (Some c, 0) (length rs) (Some ?b, 0) (blocks ?st1) = Done () ?h2"
    by simp
  then have "on_heap (uninitialized_copy_n ops (Some c, 0) (length rs) (Some ?b, 0)) ?st1
               = Done () (?st1\<lparr>blocks := ?h2\<rparr>)"
    by (rule on_heap_start)
  then have a2: "unwinding (on_heap (uninitialized_copy_n ops (GetAddress (data' r)) (size' r) (GetAddress ?nd)))
                   (RawMemory_dtor ?nd) ?st1 = Done () ?st2"
    by (simp add: unwinding_def GetAddress_def c sr)
  show ?thesis
    unfolding Vector_copy_members_def
    by (rule bind_Done_eq, rule a1, rule bind_Done_eq, rule a2) (simp add: ret_def sr)
qed

lemma Vector_copy_members_Thrown:
  assumes run: "Vector_copy_members ops r st = Thrown e st'"
    and fresh: "blocks st (next_addr st) = None"
  shows "vecs st' = vecs st \<and> blocks st' = blocks st"
  using run unfolding Vector_copy_members_def
proof (elim bind_ThrownE unwinding_ThrownE)
  assume "RawMemory (size' r) st = Thrown e st'"
  then show ?thesis by (simp add: RawMemory_Thrown)
next
  fix nd st1 st2
  assume alloc: "RawMemory (size' r) st = Done nd st1"
    and f: "on_heap (uninitialized_copy_n ops (GetAddress (data' r)) (size' r) (GetAddress nd)) st1 = Thrown e st2"
    and d: "RawMemory_dtor nd st2 = Done () st'"
  from on_heap_copy_frame(2) [OF f] have v: "vecs st2 = vecs st1"
    and fr: "\<And>c. Some c \<noteq> buffer' nd \<Longrightarrow> blocks st2 c = blocks st1 c"
    by (auto simp: frame_def same_except_def GetAddress_def)
  show ?thesis
  proof (cases "size' r = 0")
    case True
    with alloc d v fr show ?thesis
      by (auto simp: RawMemory_Done RawMemory_dtor_Done)
  next
    case False
    with alloc have nd: "nd = \<lparr>buffer' = Some (next_addr st), capacity' = size' r\<rparr>"
      and st1: "st1 = st\<lparr>blocks := (blocks st)(next_addr st \<mapsto> replicate (size' r) Raw),
                  next_addr := Suc (next_addr st), free_slots := free_slots st - size' r\<rparr>"
      by (auto simp: RawMemory_Done)
    from d nd obtain blk where "blocks st2 (next_addr st) = Some blk"
      and st': "st' = st2\<lparr>blocks := (blocks st2)(next_addr st := None), free_slots := free_slots st2 + length blk\<rparr>"
      by (auto simp: RawMemory_dtor_Done)
    have "blocks st' c = blocks st c" for c
      using fr [of c] fresh by (cases "c = next_addr st") (auto simp: st' nd st1)
    then have "blocks st' = blocks st" by (rule ext)
    moreover have "vecs st' = vecs st" by (simp add: st' v st1)
    ultimately show ?thesis by simp
  qed
qed (simp_all add: ret_def)

lemma Vector_dtor_members_at:
  assumes hv: "holds st0 v ls" and same: "\<And>a. buffer' (data' v) = Some a \<Longrightarrow> blocks st a = blocks st0 a"
  shows "\<exists>st'. Vector_dtor_members v st = Done () st' \<and> vecs st' = vecs st \<and> next_addr st' = next_addr st \<and>
           (\<forall>c. Some c \<noteq> buffer' (data' v) \<longrightarrow> blocks st' c = blocks st c) \<and>
           (\<forall>a. buffer' (data' v) = Some a \<longrightarrow> blocks st' a = None)"
proof (cases "buffer' (data' v)")
  case None
  with hv have "size' v = 0" by (auto simp: holds_def)
  with None show ?thesis
    by (simp add: Vector_dtor_members_def Destroy_members_def bind_def on_heap_noexcept_def
          RawMemory_dtor_def Deallocate_def GetAddress_def)
next
  case (Some a)
  let ?blk = "map Obj ls @ replicate (capacity' (data' v) - length ls) Raw"
  from holds_block [OF hv Some] same [OF Some] have blk: "blocks st a = Some ?blk" by simp
  from hv have sv: "size' v = length ls" "length ls \<le> capacity' (data' v)" by (simp_all add: holds_def)
  have "destroy_n (Some a, 0) (length ls) (blocks st)
          = (blocks st)(a \<mapsto> overwrite 0 (replicate (length ls) Raw) ?blk)"
    using blk sv by (intro destroy_n_block) simp_all
  then show ?thesis
    using Some sv
    by (simp add: Vector_dtor_members_def Destroy_members_def bind_def on_heap_noexcept_def
          RawMemory_dtor_def Deallocate_def GetAddress_def)
qed

lemma Vector_assign_realloc:
  assumes ne: "this \<noteq> rhs" and v: "vecs st this = Some v" and r: "vecs st rhs = Some r"
    and hv: "holds st v ls" and hr: "holds st r rs"
    and distinct: "buffer' (data' v) = None \<or> buffer' (data' v) \<noteq> buffer' (data' r)"
    and fresh: "blocks st (next_addr st) = None"
    and big: "capacity' (data' v) < length rs"
    and room: "length rs \<le> free_slots st"
    and ok: "list_all (\<lambda>x. copy_ctor ops x = Some x) rs"
  shows "\<exists>st'. Vector_assign ops this rhs st = Done () st' \<and>
           vecs st' this = Some \<lparr>data' = \<lparr>buffer' = Some (next_addr st), capacity' = length rs\<rparr>, size' = length rs\<rparr> \<and>
           holds st' \<lparr>data' = \<lparr>buffer' = Some (next_addr st), capacity' = length rs\<rparr>, size' = length rs\<rparr> rs \<and>
           vecs st' rhs = Some r \<and> holds st' r rs \<and>
           (\<forall>a. buffer' (data' v) = Some a \<longrightarrow> blocks st' a = None)"
proof -
  let ?n = "length rs" and ?b = "next_addr st"
  let ?c = "\<lparr>data' = \<lparr>buffer' = Some ?b, capacity' = ?n\<rparr>, size' = ?n\<rparr>"
  let ?st2 = "st\<lparr>blocks := (blocks st)(?b \<mapsto> map Obj rs), next_addr := Suc ?b, free_slots := free_slots st - ?n\<rparr>"
  let ?st3 = "?st2\<lparr>vecs := (vecs ?st2)(this \<mapsto> ?c)\<rparr>"
  from hr have sr: "size' r = ?n" by (simp add: holds_def)
  from big have rs: "rs \<noteq> []" by auto
  have shape: "Vector_assign ops this rhs st =
      bind (Vector_copy_members ops r) (\<lambda>rhs_copy.
      bind (put_vec this rhs_copy) (\<lambda>u. Vector_dtor_members v)) st"
    using ne v r big sr
    by (simp add: Vector_assign_def bind_get_vec RawMemory_Capacity_def)
  have c1: "Vector_copy_members ops r st = Done ?c ?st2"
    using hr rs room ok fresh by (rule Vector_copy_members_Done)
  have c2: "put_vec this ?c ?st2 = Done () ?st3"
    by (simp add: put_vec_def)
  have "blocks ?st3 a = blocks st a" if "buffer' (data' v) = Some a" for a
  proof -
    from holds_block [OF hv that] fresh have "a \<noteq> ?b" by auto
    then show ?thesis by simp
  qed
  from Vector_dtor_members_at [OF hv this] obtain st' where
    c3: "Vector_dtor_members v ?st3 = Done () st'" and vs: "vecs st' = vecs ?st3"
    and other: "\<And>c. Some c \<noteq> buffer' (data' v) \<Longrightarrow> blocks st' c = blocks ?st3 c"
    and gone: "\<forall>a. buffer' (data' v) = Some a \<longrightarrow> blocks st' a = None"
    by blast
  have run: "Vector_assign ops this rhs st = Done () st'"
    unfolding shape
    by (rule bind_Done_eq, rule c1, rule bind_Done_eq, rule c2, rule c3)
  have nb: "Some ?b \<noteq> buffer' (data' v)"
  proof
    assume "Some ?b = buffer' (data' v)"
    then have "buffer' (data' v) = Some ?b" by simp
    from holds_block [OF hv this] fresh show False by simp
  qed
  from other [OF nb] have "blocks st' ?b = Some (map Obj rs)" by simp
  then have h1: "holds st' ?c rs" by (simp add: holds_def)
  have h2: "holds st' r rs"
  proof (rule holds_same_block [OF hr])
    fix c assume c: "buffer' (data' r) = Some c"
    from holds_block [OF hr c] fresh have "c \<noteq> ?b" by auto
    moreover from c distinct have "Some c \<noteq> buffer' (data' v)" by auto
    ultimately show "blocks st' c = blocks st c" using other [of c] by simp
  qed
  from run vs h1 h2 gone r ne show ?thesis by auto
qed

lemma Vector_assign_realloc_Thrown:
  assumes run: "Vector_assign ops this rhs st = Thrown e st'"
    and ne: "this \<noteq> rhs" and v: "vecs st this = Some v" and r: "vecs st rhs = Some r"
    and big: "capacity' (data' v) < size' r"
    and fresh: "blocks st (next_addr st) = None"
  shows "vecs st' = vecs st \<and> blocks st' = blocks st"
proof -
  from run ne v r big have
    "bind (Vector_copy_members ops r) (\<lambda>rhs_copy.
      bind (put_vec this rhs_copy) (\<lambda>u. Vector_dtor_members v)) st = Thrown e st'"
    by (simp add: Vector_assign_def bind_get_vec RawMemory_Capacity_def)
  then have "Vector_copy_members ops r st = Thrown e st'"
    by (auto elim!: bind_ThrownE simp: Vector_dtor_members_keeps)
  then show ?thesis using fresh by (rule Vector_copy_members_Thrown)
qed

section \<open>The transfer into a new arena\<close>

lemma holds_live:
  assumes "holds st v xs" and "buffer' (data' v) = Some a" and "k < length xs"
  shows "0 + k < length (map Obj xs @ replicate (capacity' (data' v) - length xs) Raw) \<and>
         (map Obj xs @ replicate (capacity' (data' v) - length xs) Raw) ! (0 + k) = Obj (xs ! k)"
  using assms by (simp add: nth_append)

lemma overwrite_live:
  "length ys = length xs \<Longrightarrow>
     overwrite 0 (map Obj ys) (map Obj xs @ replicate c Raw) = map Obj ys @ replicate c Raw"
  by (simp add: overwrite_def)

lemma Reallocate_by_move:
  assumes mode: "nothrow_move_constructible ops \<or> \<not> copy_constructible ops"
    and v: "vecs st this = Some v" and hv: "holds st v xs"
    and nd: "buffer' nd = Some b" "blocks st b = Some bblk" "buffer' (data' v) \<noteq> Some b"
    and ok: "map (move_ctor ops) xs = map Some ms"
    and fits: "length xs \<le> length bblk"
  shows "\<exists>st'. Reallocate ops this nd st = Done () st' \<and> vecs st' = vecs st \<and> next_addr st' = next_addr st \<and>
           free_slots st' = free_slots st \<and>
           blocks st' b = Some (overwrite 0 (map (\<lambda>m. Obj (fst m)) ms) bblk) \<and>
           holds st' v (map snd ms) \<and>
           (\<forall>c. Some c \<noteq> buffer' (data' v) \<and> c \<noteq> b \<longrightarrow> blocks st' c = blocks st c)"
proof -
  from hv have sv: "size' v = length xs" "length xs \<le> capacity' (data' v)" by (simp_all add: holds_def)
  from ok have lm: "length ms = length xs" by (metis length_map)
  have shape: "Reallocate ops this nd st
      = on_heap (uninitialized_move_n ops (buffer' (data' v), 0) (length xs) (Some b, 0)) st"
    using mode v sv nd by (simp add: Reallocate_def bind_get_vec GetAddress_def)
  show ?thesis
  proof (cases "buffer' (data' v)")
    case None
    with hv have "xs = []" by (auto simp: holds_def)
    with ok have "ms = []" by simp
    have "Reallocate ops this nd st = Done () (st\<lparr>blocks := blocks st\<rparr>)"
      unfolding shape \<open>xs = []\<close> by (simp add: on_heap_def ret_def)
    then show ?thesis
      using \<open>ms = []\<close> nd hv \<open>xs = []\<close> by (auto simp: holds_def None)
  next
    case (Some a)
    let ?ablk = "map Obj xs @ replicate (capacity' (data' v) - length xs) Raw"
    from holds_block [OF hv Some] have ablk: "blocks st a = Some ?ablk" .
    from nd Some have ab: "a \<noteq> b" by auto
    let ?h' = "(blocks st)(a \<mapsto> overwrite 0 (map (\<lambda>m. Obj (snd m)) ms) ?ablk,
                          b \<mapsto> overwrite 0 (map (\<lambda>m. Obj (fst m)) ms) bblk)"
    have "uninitialized_move_n ops (Some a, 0) (length xs) (Some b, 0) (blocks st) = Done () ?h'"
    proof (rule uninitialized_move_n_Done [OF ablk nd(2) ab _ ok])
      fix k assume "k < length xs"
      then show "0 + k < length ?ablk \<and> ?ablk ! (0 + k) = Obj (xs ! k)"
        by (simp add: nth_append)
    qed (use fits in simp)
    then have run: "Reallocate ops this nd st = Done () (st\<lparr>blocks := ?h'\<rparr>)"
      unfolding shape Some by (rule on_heap_start)
    have "overwrite 0 (map (\<lambda>m. Obj (snd m)) ms) ?ablk
            = map Obj (map snd ms) @ replicate (capacity' (data' v) - length xs) Raw"
      using lm overwrite_live [of "map snd ms" xs] by (simp add: comp_def)
    then have "holds (st\<lparr>blocks := ?h'\<rparr>) v (map snd ms)"
      using sv lm ab Some by (simp add: holds_def)
    with run ab Some show ?thesis by auto
  qed
qed

lemma Reallocate_by_copy:
  assumes mode: "\<not> nothrow_move_constructible ops \<and> copy_constructible ops"
    and v: "vecs st this = Some v" and hv: "holds st v xs"
    and nd: "buffer' nd = Some b" "blocks st b = Some bblk" "buffer' (data' v) \<noteq> Some b"
    and ok: "map (copy_ctor ops) xs = map Some cs"
    and fits: "length xs \<le> length bblk"
  shows "\<exists>st'. Reallocate ops this nd st = Done () st' \<and> vecs st' = vecs st \<and> next_addr st' = next_addr st \<and>
           free_slots st' = free_slots st \<and>
           blocks st' b = Some (overwrite 0 (map Obj cs) bblk) \<and>
           holds st' v xs \<and>
           (\<forall>c. c \<noteq> b \<longrightarrow> blocks st' c = blocks st c)"
proof -
  from hv have sv: "size' v = length xs" "length xs \<le> capacity' (data' v)" by (simp_all add: holds_def)
  have shape: "Reallocate ops this nd st
      = on_heap (uninitialized_copy_n ops (buffer' (data' v), 0) (length xs) (Some b, 0)) st"
    using mode v sv nd by (simp add: Reallocate_def bind_get_vec GetAddress_def)
  show ?thesis
  proof (cases "buffer' (data' v)")
    case None
    with hv have "xs = []" by (auto simp: holds_def)
    with ok have "cs = []" by simp
    have "Reallocate ops this nd st = Done () (st\<lparr>blocks := blocks st\<rparr>)"
      unfolding shape \<open>xs = []\<close> by (simp add: on_heap_def ret_def)
    then show ?thesis
      using \<open>cs = []\<close> nd hv by auto
  next
    case (Some a)
    let ?ablk = "map Obj xs @ replicate (capacity' (data' v) - length xs) Raw"
    from holds_block [OF hv Some] have ablk: "blocks st a = Some ?ablk" .
    from nd Some have ab: "a \<noteq> b" by auto
    let ?h' = "(blocks st)(b \<mapsto> overwrite 0 (map Obj cs) bblk)"
    have "uninitialized_copy_n ops (Some a, 0) (length xs) (Some b, 0) (blocks st) = Done () ?h'"
    proof (rule uninitialized_copy_n_Done [OF ablk nd(2) ab _ ok])
      fix k assume "k < length xs"
      then show "0 + k < length ?ablk \<and> ?ablk ! (0 + k) = Obj (xs ! k)"
        by (simp add: nth_append)
    qed (use fits in simp)
    then have run: "Reallocate ops this nd st = Done () (st\<lparr>blocks := ?h'\<rparr>)"
      unfolding shape Some by (rule on_heap_start)
    have "holds (st\<lparr>blocks := ?h'\<rparr>) v xs"
      using hv ab Some by (simp add: holds_def)
    with run show ?thesis by auto
  qed
qed

lemma Reallocate_copy_keeps_source:
  assumes mode: "\<not> nothrow_move_constructible ops \<and> copy_constructible ops"
    and hv: "holds st v xs" and nd: "buffer' (data' v) \<noteq> buffer' nd"
    and fin: "final_state (Reallocate ops this nd st) = Some st'"
  shows "holds st' v xs \<and> vecs st' = vecs st"
proof -
  from fin have "frame (buffer' nd) st st'"
    using mode unfolding Reallocate_def
    by (auto elim!: final_stateE bind_DoneE bind_ThrownE simp: GetAddress_def dest!: on_heap_copy_frame)
  then have "vecs st' = vecs st" and "\<And>c. Some c \<noteq> buffer' nd \<Longrightarrow> blocks st' c = blocks st c"
    by (auto simp: frame_def same_except_def)
  with hv nd show ?thesis
    by (auto intro!: holds_same_block [OF hv])
qed


lemma nth_overwrite_after:
  assumes "j + length ys \<le> i" and "i < length blk"
  shows "overwrite j ys blk ! i = blk ! i"
proof -
  have "overwrite j ys blk = (take j blk @ ys) @ drop (j + length ys) blk"
    by (simp add: overwrite_def)
  moreover have "length (take j blk @ ys) = j + length ys"
    using assms by simp
  ultimately have "overwrite j ys blk ! i = drop (j + length ys) blk ! (i - (j + length ys))"
    using assms by (simp add: nth_append del: append_assoc)
  also have "\<dots> = blk ! i"
    using assms by simp
  finally show ?thesis .
qed

lemma overwrite_twice:
  "length S1 = p \<Longrightarrow> p + length S2 \<le> length blk \<Longrightarrow>
     overwrite p S2 (overwrite 0 S1 blk) = S1 @ S2 @ drop (p + length S2) blk"
  by (simp add: overwrite_def add.commute)

lemma bind_ptr_add_int: "bind (ptr_add_int (q, i) (int p)) f = f (q, i + p)"
  by (rule ext) (simp add: bind_def ptr_add_int_def nat_add_distrib)

lemma Emplace_transfer_by_move:
  assumes mode: "nothrow_move_constructible ops \<or> \<not> copy_constructible ops"
    and hv: "holds st v xs"
    and nd: "buffer' nd = Some b" "blocks st b = Some bblk" "buffer' (data' v) \<noteq> Some b"
    and ok: "map (move_ctor ops) xs = map Some ms"
    and p: "p \<le> length xs" and fits: "length xs < length bblk" and small: "length xs < 2 ^ 64"
  shows "\<exists>st'. Emplace_transfer ops v (int p) nd st = Done () st' \<and> vecs st' = vecs st \<and>
           next_addr st' = next_addr st \<and> free_slots st' = free_slots st \<and>
           blocks st' b = Some (overwrite (Suc p) (map (\<lambda>m. Obj (fst m)) (drop p ms))
                                 (overwrite 0 (map (\<lambda>m. Obj (fst m)) (take p ms)) bblk)) \<and>
           holds st' v (map snd ms) \<and>
           (\<forall>c. Some c \<noteq> buffer' (data' v) \<and> c \<noteq> b \<longrightarrow> blocks st' c = blocks st c)"
proof -
  from hv have sv: "size' v = length xs" "length xs \<le> capacity' (data' v)" by (simp_all add: holds_def)
  from ok have lm: "length ms = length xs" by (metis length_map)
  from p small have "int (length xs) - int p < 2 ^ 64" "0 \<le> int (length xs) - int p" by simp_all
  then have "size_t (int (length xs) - int p) = nat (int (length xs) - int p)"
    by (simp add: size_t_small)
  with p have cnt: "size_t (int (size' v) - int p) = length xs - p"
    by (simp add: sv nat_diff_distrib')
  let ?B1 = "overwrite 0 (map (\<lambda>m. Obj (fst m)) (take p ms)) bblk"
  let ?B2 = "overwrite (Suc p) (map (\<lambda>m. Obj (fst m)) (drop p ms)) ?B1"
  have shape: "Emplace_transfer ops v (int p) nd st =
      bind (on_heap (uninitialized_move_n ops (buffer' (data' v), 0) p (Some b, 0))) (\<lambda>u.
        on_heap (uninitialized_move_n ops (buffer' (data' v), p) (length xs - p) (Some b, Suc p))) st"
    using mode nd(1) by (simp add: Emplace_transfer_def GetAddress_def cnt bind_ptr_add_int)
  show ?thesis
  proof (cases "buffer' (data' v)")
    case None
    with hv have "xs = []" by (auto simp: holds_def)
    with ok p have "ms = []" "p = 0" by simp_all
    have "Emplace_transfer ops v (int p) nd st = Done () (st\<lparr>blocks := blocks st\<rparr>)"
      using shape by (simp add: \<open>xs = []\<close> \<open>p = 0\<close> None on_heap_def ret_def bind_def)
    then show ?thesis
      using \<open>ms = []\<close> nd hv \<open>xs = []\<close> by (auto simp: holds_def None)
  next
    case (Some a)
    let ?c = "capacity' (data' v) - length xs"
    let ?ablk = "map Obj xs @ replicate ?c Raw"
    let ?A1 = "overwrite 0 (map (\<lambda>m. Obj (snd m)) (take p ms)) ?ablk"
    let ?A2 = "overwrite p (map (\<lambda>m. Obj (snd m)) (drop p ms)) ?A1"
    from holds_block [OF hv Some] have ablk: "blocks st a = Some ?ablk" .
    from nd Some have ab: "a \<noteq> b" by auto
    let ?h1 = "(blocks st)(a \<mapsto> ?A1, b \<mapsto> ?B1)"
    let ?h2 = "?h1(a \<mapsto> ?A2, b \<mapsto> ?B2)"
    have lt: "length (take p xs) = p" and ld: "length (drop p xs) = length xs - p"
      using p by simp_all
    have ok1: "map (move_ctor ops) (take p xs) = map Some (take p ms)"
      using ok by (simp add: take_map [symmetric])
    have ok2: "map (move_ctor ops) (drop p xs) = map Some (drop p ms)"
      using ok by (simp add: drop_map [symmetric])
    have "uninitialized_move_n ops (Some a, 0) (length (take p xs)) (Some b, 0) (blocks st) = Done () ?h1"
    proof (rule uninitialized_move_n_Done [OF ablk nd(2) ab _ ok1])
      fix k assume "k < length (take p xs)"
      then show "0 + k < length ?ablk \<and> ?ablk ! (0 + k) = Obj (take p xs ! k)"
        by (simp add: nth_append)
    qed (use fits p in simp)
    then have m1: "uninitialized_move_n ops (Some a, 0) p (Some b, 0) (blocks st) = Done () ?h1"
      unfolding lt .
    have lA1: "length ?A1 = length ?ablk"
      using p lm by (intro length_overwrite) simp
    have lB1: "length ?B1 = length bblk"
      using p lm fits by (intro length_overwrite) simp
    have h1a: "?h1 a = Some ?A1" and h1b: "?h1 b = Some ?B1"
      using ab by simp_all
    have "uninitialized_move_n ops (Some a, p) (length (drop p xs)) (Some b, Suc p) ?h1 = Done () ?h2"
    proof (rule uninitialized_move_n_Done [OF h1a h1b ab _ ok2])
      fix k assume k: "k < length (drop p xs)"
      then have "p + k < length ?ablk" by simp
      moreover have "?A1 ! (p + k) = ?ablk ! (p + k)"
        using p lm k by (intro nth_overwrite_after) simp_all
      moreover from k p have "p + k < length xs" by simp
      then have "?ablk ! (p + k) = Obj (drop p xs ! k)"
        using p by (simp add: nth_append)
      ultimately show "p + k < length ?A1 \<and> ?A1 ! (p + k) = Obj (drop p xs ! k)"
        by (simp add: lA1)
    qed (use fits p lB1 in simp)
    then have m2: "uninitialized_move_n ops (Some a, p) (length xs - p) (Some b, Suc p) ?h1 = Done () ?h2"
      unfolding ld .
    have run: "Emplace_transfer ops v (int p) nd st = Done () (st\<lparr>blocks := ?h2\<rparr>)"
      unfolding shape Some
      by (rule bind_Done_eq, rule on_heap_start, rule m1, rule on_heap_at, rule m2)
    have "?A2 = map (\<lambda>m. Obj (snd m)) (take p ms) @ map (\<lambda>m. Obj (snd m)) (drop p ms)
                 @ drop (p + length (map (\<lambda>m. Obj (snd m)) (drop p ms))) ?ablk"
      using p lm by (intro overwrite_twice) simp_all
    also have "\<dots> = map Obj (map snd ms) @ replicate ?c Raw"
      using p lm by (simp add: map_append [symmetric] comp_def del: map_append)
    finally have "holds (st\<lparr>blocks := ?h2\<rparr>) v (map snd ms)"
      using sv lm ab Some by (simp add: holds_def)
    with run ab Some show ?thesis by auto
  qed
qed

lemma Emplace_transfer_by_copy:
  assumes mode: "\<not> nothrow_move_constructible ops \<and> copy_constructible ops"
    and hv: "holds st v xs"
    and nd: "buffer' nd = Some b" "blocks st b = Some bblk" "buffer' (data' v) \<noteq> Some b"
    and ok: "map (copy_ctor ops) xs = map Some cs"
    and p: "p \<le> length xs" and fits: "length xs < length bblk" and small: "length xs < 2 ^ 64"
  shows "\<exists>st'. Emplace_transfer ops v (int p) nd st = Done () st' \<and> vecs st' = vecs st \<and>
           next_addr st' = next_addr st \<and> free_slots st' = free_slots st \<and>
           blocks st' b = Some (overwrite (Suc p) (map Obj (drop p cs))
                                 (overwrite 0 (map Obj (take p cs)) bblk)) \<and>
           holds st' v xs \<and>
           (\<forall>c. c \<noteq> b \<longrightarrow> blocks st' c = blocks st c)"
proof -
  from hv have sv: "size' v = length xs" "length xs \<le> capacity' (data' v)" by (simp_all add: holds_def)
  from ok have lm: "length cs = length xs" by (metis length_map)
  from p small have "int (length xs) - int p < 2 ^ 64" "0 \<le> int (length xs) - int p" by simp_all
  then have "size_t (int (length xs) - int p) = nat (int (length xs) - int p)"
    by (simp add: size_t_small)
  with p have cnt: "size_t (int (size' v) - int p) = length xs - p"
    by (simp add: sv nat_diff_distrib')
  let ?B1 = "overwrite 0 (map Obj (take p cs)) bblk"
  let ?B2 = "overwrite (Suc p) (map Obj (drop p cs)) ?B1"
  have shape: "Emplace_transfer ops v (int p) nd st =
      bind (on_heap (uninitialized_copy_n ops (buffer' (data' v), 0) p (Some b, 0))) (\<lambda>u.
        on_heap (uninitialized_copy_n ops (buffer' (data' v), p) (length xs - p) (Some b, Suc p))) st"
    using mode nd(1) by (simp add: Emplace_transfer_def GetAddress_def cnt bind_ptr_add_int)
  show ?thesis
  proof (cases "buffer' (data' v)")
    case None
    with hv have "xs = []" by (auto simp: holds_def)
    with ok p have "cs = []" "p = 0" by simp_all
    have "Emplace_transfer ops v (int p) nd st = Done () (st\<lparr>blocks := blocks st\<rparr>)"
      using shape by (simp add: \<open>xs = []\<close> \<open>p = 0\<close> None on_heap_def ret_def bind_def)
    then show ?thesis
      using \<open>cs = []\<close> nd hv by auto
  next
    case (Some a)
    let ?c = "capacity' (data' v) - length xs"
    let ?ablk = "map Obj xs @ replicate ?c Raw"
    from holds_block [OF hv Some] have ablk: "blocks st a = Some ?ablk" .
    from nd Some have ab: "a \<noteq> b" by auto
    let ?h1 = "(blocks st)(b \<mapsto> ?B1)"
    let ?h2 = "?h1(b \<mapsto> ?B2)"
    have lt: "length (take p xs) = p" and ld: "length (drop p xs) = length xs - p"
      using p by simp_all
    have ok1: "map (copy_ctor ops) (take p xs) = map Some (take p cs)"
      using ok by (simp add: take_map [symmetric])
    have ok2: "map (copy_ctor ops) (drop p xs) = map Some (drop p cs)"
      using ok by (simp add: drop_map [symmetric])
    have "uninitialized_copy_n ops (Some a, 0) (length (take p xs)) (Some b, 0) (blocks st) = Done () ?h1"
    proof (rule uninitialized_copy_n_Done [OF ablk nd(2) ab _ ok1])
      fix k assume "k < length (take p xs)"
      then show "0 + k < length ?ablk \<and> ?ablk ! (0 + k) = Obj (take p xs ! k)"
        by (simp add: nth_append)
    qed (use fits p in simp)
    then have m1: "uninitialized_copy_n ops (Some a, 0) p (Some b, 0) (blocks st) = Done () ?h1"
      unfolding lt .
    have lB1: "length ?B1 = length bblk"
      using p lm fits by (intro length_overwrite) simp
    have h1a: "?h1 a = Some ?ablk" and h1b: "?h1 b = Some ?B1"
      using ab ablk by simp_all
    have "uninitialized_copy_n ops (Some a, p) (length (drop p xs)) (Some b, Suc p) ?h1 = Done () ?h2"
    proof (rule uninitialized_copy_n_Done [OF h1a h1b ab _ ok2])
      fix k assume k: "k < length (drop p xs)"
      with p have "p + k < length xs" by simp
      then show "p + k < length ?ablk \<and> ?ablk ! (p + k) = Obj (drop p xs ! k)"
        using p by (simp add: nth_append)
    qed (use fits p lB1 in simp)
    then have m2: "uninitialized_copy_n ops (Some a, p) (length xs - p) (Some b, Suc p) ?h1 = Done () ?h2"
      unfolding ld .
    have run: "Emplace_transfer ops v (int p) nd st = Done () (st\<lparr>blocks := ?h2\<rparr>)"
      unfolding shape Some
      by (rule bind_Done_eq, rule on_heap_start, rule m1, rule on_heap_at, rule m2)
    have "holds (st\<lparr>blocks := ?h2\<rparr>) v xs"
      using hv ab Some by (simp add: holds_def)
    with run show ?thesis by auto
  qed
qed

lemma Emplace_transfer_copy_keeps_source:
  assumes mode: "\<not> nothrow_move_constructible ops \<and> copy_constructible ops"
    and hv: "holds st v xs" and nd: "buffer' (data' v) \<noteq> buffer' nd"
    and fin: "final_state (Emplace_transfer ops v pos_num nd st) = Some st'"
  shows "holds st' v xs \<and> vecs st' = vecs st"
proof -
  from fin have "frame (buffer' nd) st st'"
    using mode unfolding Emplace_transfer_def
    by (auto elim!: final_stateE bind_DoneE bind_ThrownE
          simp: GetAddress_def ptr_add_int_Done ptr_add_def
          dest!: on_heap_copy_frame intro: frame_trans)
  then have "vecs st' = vecs st" and "\<And>c. Some c \<noteq> buffer' nd \<Longrightarrow> blocks st' c = blocks st c"
    by (auto simp: frame_def same_except_def)
  with hv nd show ?thesis
    by (auto intro!: holds_same_block [OF hv])
qed

lemma map_Obj_fst_zip:
  "length ys = length zs \<Longrightarrow> map (\<lambda>m. Obj (fst m)) (zip ys zs) = map Obj ys"
  "length ys = length zs \<Longrightarrow> map snd (zip ys zs) = zs"
  by (induction ys zs rule: list_induct2) simp_all

lemma Reallocate_transferred:
  assumes tr: "transfer_spec ops xs ys zs"
    and v: "vecs st this = Some v" and hv: "holds st v xs"
    and nd: "buffer' nd = Some b" "blocks st b = Some bblk" "buffer' (data' v) \<noteq> Some b"
    and fits: "length xs \<le> length bblk"
  shows "\<exists>st'. Reallocate ops this nd st = Done () st' \<and> vecs st' = vecs st \<and> next_addr st' = next_addr st \<and>
           free_slots st' = free_slots st \<and>
           blocks st' b = Some (overwrite 0 (map Obj ys) bblk) \<and>
           holds st' v zs \<and>
           (\<forall>c. Some c \<noteq> buffer' (data' v) \<and> c \<noteq> b \<longrightarrow> blocks st' c = blocks st c)"
proof (cases "nothrow_move_constructible ops \<or> \<not> copy_constructible ops")
  case True
  with tr have ok: "map (move_ctor ops) xs = map Some (zip ys zs)" and l: "length ys = length zs"
    by (simp_all add: transfer_spec_def)
  from Reallocate_by_move [OF True v hv nd ok fits] show ?thesis
    by (simp add: map_Obj_fst_zip [OF l])
next
  case False
  with tr have ok: "map (copy_ctor ops) xs = map Some ys" and z: "zs = xs"
    by (simp_all add: transfer_spec_def)
  from False have mode: "\<not> nothrow_move_constructible ops \<and> copy_constructible ops" by simp
  from Reallocate_by_copy [OF mode v hv nd ok fits] show ?thesis
    unfolding z by blast
qed

lemma Emplace_transfer_transferred:
  assumes tr: "transfer_spec ops xs ys zs"
    and hv: "holds st v xs"
    and nd: "buffer' nd = Some b" "blocks st b = Some bblk" "buffer' (data' v) \<noteq> Some b"
    and p: "p \<le> length xs" and fits: "length xs < length bblk" and small: "length xs < 2 ^ 64"
  shows "\<exists>st'. Emplace_transfer ops v (int p) nd st = Done () st' \<and> vecs st' = vecs st \<and>
           next_addr st' = next_addr st \<and> free_slots st' = free_slots st \<and>
           blocks st' b = Some (overwrite (Suc p) (map Obj (drop p ys))
                                 (overwrite 0 (map Obj (take p ys)) bblk)) \<and>
           holds st' v zs \<and>
           (\<forall>c. Some c \<noteq> buffer' (data' v) \<and> c \<noteq> b \<longrightarrow> blocks st' c = blocks st c)"
proof (cases "nothrow_move_constructible ops \<or> \<not> copy_constructible ops")
  case True
  with tr have ok: "map (move_ctor ops) xs = map Some (zip ys zs)" and l: "length ys = length zs"
    by (simp_all add: transfer_spec_def)
  have "map (\<lambda>m. Obj (fst m)) (drop p (zip ys zs)) = map Obj (drop p ys)"
    "map (\<lambda>m. Obj (fst m)) (take p (zip ys zs)) = map Obj (take p ys)"
    using l by (simp_all add: drop_zip take_zip map_Obj_fst_zip)
  with Emplace_transfer_by_move [OF True hv nd ok p fits small] show ?thesis
    by (simp add: map_Obj_fst_zip [OF l])
next
  case False
  with tr have ok: "map (copy_ctor ops) xs = map Some ys" and z: "zs = xs"
    by (simp_all add: transfer_spec_def)
  from False have mode: "\<not> nothrow_move_constructible ops \<and> copy_constructible ops" by simp
  from Emplace_transfer_by_copy [OF mode hv nd ok p fits small] show ?thesis
    unfolding z by blast
qed

lemma store_allocated: "store h p s = Some h' \<Longrightarrow> h' a = None \<longleftrightarrow> h a = None"
  by (auto simp: store_def split: option.splits if_splits)

lemma destroy_at_allocated: "destroy_at p h a = None \<longleftrightarrow> h a = None"
  by (auto simp: destroy_at_def dest: store_allocated split: option.splits)

lemma destroy_n_allocated: "destroy_n p n h a = None \<longleftrightarrow> h a = None"
  by (induction n arbitrary: p h) (simp_all add: destroy_at_allocated)

lemma destroy_n_same_except: "same_except (fst p) h (destroy_n p n h)"
proof (induction n arbitrary: p h)
  case 0
  show ?case by (simp add: same_except_def)
next
  case (Suc n)
  have "same_except (fst p) h (destroy_at p h)" by (rule destroy_at_same_except)
  moreover have "same_except (fst p) (destroy_at p h) (destroy_n (ptr_add p 1) n (destroy_at p h))"
    using Suc [of "ptr_add p 1" "destroy_at p h"] by (simp add: ptr_add_def)
  ultimately show ?case by (simp add: same_except_def)
qed

lemma with_new_arena_at:
  assumes v: "vecs st this = Some v" and k: "k \<noteq> 0" "k \<le> free_slots st"
    and fill: "fill \<lparr>buffer' = Some (next_addr st), capacity' = k\<rparr>
                 (st\<lparr>blocks := (blocks st)(next_addr st \<mapsto> replicate k Raw),
                     next_addr := Suc (next_addr st), free_slots := free_slots st - k\<rparr>) = Done () st2"
    and v2: "vecs st2 = vecs st"
    and old: "\<And>a. buffer' (data' v) = Some a \<Longrightarrow> blocks st2 a \<noteq> None"
  shows "\<exists>st'. with_new_arena this k fill st = Done () st' \<and>
           vecs st' = (vecs st)(this \<mapsto> \<lparr>data' = \<lparr>buffer' = Some (next_addr st), capacity' = k\<rparr>, size' = size' v\<rparr>) \<and>
           next_addr st' = next_addr st2 \<and>
           (\<forall>a. buffer' (data' v) = Some a \<longrightarrow> blocks st' a = None) \<and>
           (\<forall>c. Some c \<noteq> buffer' (data' v) \<longrightarrow> blocks st' c = blocks st2 c)"
proof -
  let ?nd = "\<lparr>buffer' = Some (next_addr st), capacity' = k\<rparr>"
  let ?st1 = "st\<lparr>blocks := (blocks st)(next_addr st \<mapsto> replicate k Raw),
                 next_addr := Suc (next_addr st), free_slots := free_slots st - k\<rparr>"
  let ?h3 = "destroy_n (buffer' (data' v), 0) (size' v) (blocks st2)"
  let ?st3 = "st2\<lparr>blocks := ?h3\<rparr>"
  let ?st4 = "?st3\<lparr>vecs := (vecs ?st3)(this \<mapsto> \<lparr>data' = ?nd, size' = size' v\<rparr>)\<rparr>"
  have a: "RawMemory k st = Done ?nd ?st1" using k by (rule RawMemory_at)
  have f: "unwinding (fill ?nd) (RawMemory_dtor ?nd) ?st1 = Done () st2"
    using fill by (rule unwinding_of_Done)
  have d: "Destroy this st2 = Done () ?st3"
    using v v2 by (simp add: Destroy_Done GetAddress_def)
  have sw: "Swap_data this ?nd ?st3 = Done (data' v) ?st4"
    using v v2 by (simp add: Swap_data_Done)
  have same: "\<And>c. Some c \<noteq> buffer' (data' v) \<Longrightarrow> ?h3 c = blocks st2 c"
    using destroy_n_same_except [of "(buffer' (data' v), 0)" "blocks st2" "size' v"]
    by (simp add: same_except_def)
  have "\<exists>st'. RawMemory_dtor (data' v) ?st4 = Done () st' \<and> vecs st' = vecs ?st4 \<and>
          next_addr st' = next_addr st2 \<and>
          (\<forall>a. buffer' (data' v) = Some a \<longrightarrow> blocks st' a = None) \<and>
          (\<forall>c. Some c \<noteq> buffer' (data' v) \<longrightarrow> blocks st' c = blocks st2 c)"
  proof (cases "buffer' (data' v)")
    case None
    then show ?thesis using same by (simp add: RawMemory_dtor_def Deallocate_def)
  next
    case (Some a)
    from old [OF Some] have "?h3 a \<noteq> None" by (simp add: destroy_n_allocated)
    then obtain blk where "?h3 a = Some blk" by auto
    with Some same show ?thesis
      by (auto simp: RawMemory_dtor_def Deallocate_def)
  qed
  then obtain st' where dt: "RawMemory_dtor (data' v) ?st4 = Done () st'"
    and r: "vecs st' = vecs ?st4" "next_addr st' = next_addr st2"
      "\<forall>a. buffer' (data' v) = Some a \<longrightarrow> blocks st' a = None"
      "\<forall>c. Some c \<noteq> buffer' (data' v) \<longrightarrow> blocks st' c = blocks st2 c"
    by blast
  have "with_new_arena this k fill st = Done () st'"
    unfolding with_new_arena_def
    by (rule bind_Done_eq, rule a, rule bind_Done_eq, rule f, rule bind_Done_eq, rule d,
        rule bind_Done_eq, rule sw, rule dt)
  with r v2 show ?thesis by simp
qed

section \<open>The growth paths, with the contents they leave\<close>

lemma transfer_spec_length:
  "transfer_spec ops xs ys zs \<Longrightarrow> length ys = length xs \<and> length zs = length xs"
  by (auto simp: transfer_spec_def split: if_splits dest: map_eq_imp_length_eq)

lemma replicate_update:
  assumes "n < k"
  shows "(replicate k r)[n := x] = replicate n r @ x # replicate (k - Suc n) r"
proof -
  from assms have "k = n + Suc (k - Suc n)" by simp
  then have "replicate k r = replicate n r @ r # replicate (k - Suc n) r"
    by (metis replicate_add replicate_Suc)
  then show ?thesis
    by (simp add: list_update_append)
qed

lemma block_after_back:
  assumes "length A = n" and "n < k"
  shows "overwrite 0 A ((replicate k Raw)[n := Obj y]) = A @ Obj y # replicate (k - Suc n) Raw"
  using assms by (simp add: replicate_update overwrite_def)

lemma overwrite_append:
  "length P = j \<Longrightarrow> overwrite j B (P @ R) = P @ B @ drop (length B) R"
  by (simp add: overwrite_def)

lemma block_after_emplace:
  assumes "length A = p" and "length B = n - p" and "p \<le> n" and "n < k"
  shows "overwrite (Suc p) B (overwrite 0 A ((replicate k Raw)[p := Obj y]))
           = A @ Obj y # B @ replicate (k - Suc n) Raw"
proof -
  from assms have pk: "p < k" by simp
  have inner: "overwrite 0 A ((replicate k Raw)[p := Obj y]) = (A @ [Obj y]) @ replicate (k - Suc p) Raw"
    using assms(1) pk by (simp add: replicate_update overwrite_def)
  have l: "length (A @ [Obj y]) = Suc p" using assms(1) by simp
  have d: "k - Suc p - (n - p) = k - Suc n" using assms by simp
  show ?thesis
    unfolding inner overwrite_append [OF l] using assms(2) d by simp
qed

lemma holds_after_alloc:
  assumes hv: "holds st v xs" and fresh: "blocks st (next_addr st) = None"
  shows "holds (st\<lparr>blocks := (blocks st)(next_addr st \<mapsto> blk), next_addr := n', free_slots := f'\<rparr>) v xs"
    and "buffer' (data' v) \<noteq> Some (next_addr st)"
  using assms by (auto simp: holds_def split: option.splits)

lemma construct_in_block:
  assumes "blocks st b = Some blk" and "i < length blk"
  shows "on_heap (construct (Some y) (Some b, i)) st = Done () (st\<lparr>blocks := (blocks st)(b \<mapsto> blk[i := Obj y])\<rparr>)"
  using assms by (simp add: on_heap_def construct_def write_obj_def store_block)

lemma fill_back:
  assumes tr: "transfer_spec ops xs ys zs" and v: "vecs st1 this = Some v" and hv: "holds st1 v xs"
    and nd: "blocks st1 b = Some (replicate k Raw)" "buffer' (data' v) \<noteq> Some b"
    and k: "length xs < k"
  shows "\<exists>st2. bind (on_heap (construct (Some y) (Some b, length xs)))
                 (\<lambda>u. Reallocate ops this \<lparr>buffer' = Some b, capacity' = k\<rparr>) st1 = Done () st2 \<and>
           vecs st2 = vecs st1 \<and> next_addr st2 = next_addr st1 \<and>
           blocks st2 b = Some (map Obj (ys @ [y]) @ replicate (k - Suc (length xs)) Raw) \<and>
           holds st2 v zs"
proof -
  let ?nd = "\<lparr>buffer' = Some b, capacity' = k\<rparr>"
  let ?blk = "(replicate k Raw)[length xs := Obj y]"
  let ?s = "st1\<lparr>blocks := (blocks st1)(b \<mapsto> ?blk)\<rparr>"
  have c: "on_heap (construct (Some y) (Some b, length xs)) st1 = Done () ?s"
    using nd(1) k by (intro construct_in_block) simp_all
  have v': "vecs ?s this = Some v" using v by simp
  have hv': "holds ?s v xs" using hv nd(2) by (auto simp: holds_def split: option.splits)
  have b': "blocks ?s b = Some ?blk" and bn: "buffer' ?nd = Some b" by simp_all
  have fits: "length xs \<le> length ?blk" using k by simp
  from Reallocate_transferred [OF tr v' hv' bn b' nd(2) fits]
  obtain st2 where r: "Reallocate ops this ?nd ?s = Done () st2" "vecs st2 = vecs ?s"
      "next_addr st2 = next_addr ?s" "blocks st2 b = Some (overwrite 0 (map Obj ys) ?blk)" "holds st2 v zs"
    by blast
  have "overwrite 0 (map Obj ys) ?blk = map Obj ys @ Obj y # replicate (k - Suc (length xs)) Raw"
    using transfer_spec_length [OF tr] k by (intro block_after_back) simp_all
  with r(4) have blk: "blocks st2 b = Some (map Obj (ys @ [y]) @ replicate (k - Suc (length xs)) Raw)"
    by simp
  have "bind (on_heap (construct (Some y) (Some b, length xs))) (\<lambda>u. Reallocate ops this ?nd) st1 = Done () st2"
    by (rule bind_Done_eq, rule c, rule r(1))
  with r(2,3,5) blk show ?thesis by simp
qed

lemma fill_emplace:
  assumes tr: "transfer_spec ops xs ys zs" and hv: "holds st1 v xs"
    and nd: "blocks st1 b = Some (replicate k Raw)" "buffer' (data' v) \<noteq> Some b"
    and k: "length xs < k" and p: "p \<le> length xs" and small: "length xs < 2 ^ 64"
  shows "\<exists>st2. bind (on_heap (construct (Some y) (Some b, p)))
                 (\<lambda>u. Emplace_transfer ops v (int p) \<lparr>buffer' = Some b, capacity' = k\<rparr>) st1 = Done () st2 \<and>
           vecs st2 = vecs st1 \<and> next_addr st2 = next_addr st1 \<and>
           blocks st2 b = Some (map Obj (take p ys @ y # drop p ys) @ replicate (k - Suc (length xs)) Raw) \<and>
           holds st2 v zs"
proof -
  let ?nd = "\<lparr>buffer' = Some b, capacity' = k\<rparr>"
  let ?blk = "(replicate k Raw)[p := Obj y]"
  let ?s = "st1\<lparr>blocks := (blocks st1)(b \<mapsto> ?blk)\<rparr>"
  have c: "on_heap (construct (Some y) (Some b, p)) st1 = Done () ?s"
    using nd(1) k p by (intro construct_in_block) simp_all
  have hv': "holds ?s v xs" using hv nd(2) by (auto simp: holds_def split: option.splits)
  have b': "blocks ?s b = Some ?blk" and bn: "buffer' ?nd = Some b" by simp_all
  have fits: "length xs < length ?blk" using k by simp
  from Emplace_transfer_transferred [OF tr hv' bn b' nd(2) p fits small]
  obtain st2 where r: "Emplace_transfer ops v (int p) ?nd ?s = Done () st2" "vecs st2 = vecs ?s"
      "next_addr st2 = next_addr ?s"
      "blocks st2 b = Some (overwrite (Suc p) (map Obj (drop p ys)) (overwrite 0 (map Obj (take p ys)) ?blk))"
      "holds st2 v zs"
    by blast
  have "overwrite (Suc p) (map Obj (drop p ys)) (overwrite 0 (map Obj (take p ys)) ?blk)
          = map Obj (take p ys) @ Obj y # map Obj (drop p ys) @ replicate (k - Suc (length xs)) Raw"
    using transfer_spec_length [OF tr] k p by (intro block_after_emplace) simp_all
  with r(4) have blk: "blocks st2 b = Some (map Obj (take p ys @ y # drop p ys) @ replicate (k - Suc (length xs)) Raw)"
    by simp
  have "bind (on_heap (construct (Some y) (Some b, p))) (\<lambda>u. Emplace_transfer ops v (int p) ?nd) st1 = Done () st2"
    by (rule bind_Done_eq, rule c, rule r(1))
  with r(2,3,5) blk show ?thesis by simp
qed

lemma grown_holds:
  assumes v3: "vecs st3 = (vecs st)(this \<mapsto> \<lparr>data' = \<lparr>buffer' = Some b, capacity' = k\<rparr>, size' = n\<rparr>)"
    and blk: "blocks st3 b = Some (map Obj ws @ replicate (k - Suc n) Raw)"
    and len: "length ws = Suc n" and k: "n < k" and small: "n < 2 ^ 63"
  shows "\<exists>st'. incr_size this st3 = Done () st' \<and>
           vecs st' = (vecs st)(this \<mapsto> \<lparr>data' = \<lparr>buffer' = Some b, capacity' = k\<rparr>, size' = Suc n\<rparr>) \<and>
           holds st' \<lparr>data' = \<lparr>buffer' = Some b, capacity' = k\<rparr>, size' = Suc n\<rparr> ws \<and>
           blocks st' = blocks st3 \<and> next_addr st' = next_addr st3"
  using assms by (simp add: incr_size_Done size_t_Suc holds_def)

lemma Reserve_transferred:
  assumes tr: "transfer_spec ops xs ys zs" and v: "vecs st this = Some v" and hv: "holds st v xs"
    and fresh: "blocks st (next_addr st) = None"
    and big: "capacity' (data' v) < k" and room: "k \<le> free_slots st"
  shows "\<exists>st'. Reserve ops this k st = Done () st' \<and>
           vecs st' = (vecs st)(this \<mapsto> \<lparr>data' = \<lparr>buffer' = Some (next_addr st), capacity' = k\<rparr>, size' = length xs\<rparr>) \<and>
           holds st' \<lparr>data' = \<lparr>buffer' = Some (next_addr st), capacity' = k\<rparr>, size' = length xs\<rparr> ys \<and>
           next_addr st' = Suc (next_addr st) \<and>
           (\<forall>a. buffer' (data' v) = Some a \<longrightarrow> blocks st' a = None)"
proof -
  let ?b = "next_addr st"
  let ?nd = "\<lparr>buffer' = Some ?b, capacity' = k\<rparr>"
  let ?st1 = "st\<lparr>blocks := (blocks st)(?b \<mapsto> replicate k Raw), next_addr := Suc ?b, free_slots := free_slots st - k\<rparr>"
  from hv have sv: "size' v = length xs" "length xs \<le> capacity' (data' v)" by (simp_all add: holds_def)
  from big have k0: "k \<noteq> 0" by simp
  have shape: "Reserve ops this k st = with_new_arena this k (Reallocate ops this) st"
    using big by (simp add: Reserve_shape bind_get_vec [OF v] RawMemory_Capacity_def)
  have v1: "vecs ?st1 this = Some v" using v by simp
  have hv1: "holds ?st1 v xs" and ne: "buffer' (data' v) \<noteq> Some ?b"
    using holds_after_alloc [OF hv fresh] by blast+
  have b1: "blocks ?st1 ?b = Some (replicate k Raw)" and bn: "buffer' ?nd = Some ?b" by simp_all
  have fits: "length xs \<le> length (replicate k Raw :: 'a slot list)" using sv big by simp
  from Reallocate_transferred [OF tr v1 hv1 bn b1 ne fits]
  obtain st2 where r: "Reallocate ops this ?nd ?st1 = Done () st2" "vecs st2 = vecs ?st1"
      "next_addr st2 = next_addr ?st1" "blocks st2 ?b = Some (overwrite 0 (map Obj ys) (replicate k Raw))"
      "holds st2 v zs"
    by blast
  have v2: "vecs st2 = vecs st" using r(2) by simp
  have old: "\<And>a. buffer' (data' v) = Some a \<Longrightarrow> blocks st2 a \<noteq> None"
    using r(5) by (auto simp: holds_def)
  from with_new_arena_at [of st this v k "Reallocate ops this", OF v k0 room r(1) v2 old]
  obtain st' where w: "with_new_arena this k (Reallocate ops this) st = Done () st'"
      "vecs st' = (vecs st)(this \<mapsto> \<lparr>data' = ?nd, size' = size' v\<rparr>)"
      "next_addr st' = next_addr st2"
      "\<forall>a. buffer' (data' v) = Some a \<longrightarrow> blocks st' a = None"
      "\<forall>c. Some c \<noteq> buffer' (data' v) \<longrightarrow> blocks st' c = blocks st2 c"
    by blast
  from w(5) ne have "blocks st' ?b = blocks st2 ?b" by auto
  with r(4) have "blocks st' ?b = Some (map Obj ys @ replicate (k - length ys) Raw)"
    using transfer_spec_length [OF tr] sv big by (simp add: overwrite_def)
  then have "holds st' \<lparr>data' = ?nd, size' = length xs\<rparr> ys"
    using transfer_spec_length [OF tr] sv big by (simp add: holds_def)
  with w r(3) sv show ?thesis
    unfolding shape by simp
qed

lemma grow_factor:
  assumes "size' v = n" and "n < 2 ^ 63"
  shows "(if size' v = 0 then 1 else size_t (int (size' v) * 2)) = max 1 (2 * n)"
  using assms by (auto simp: size_t_double)

lemma PushBack_with_transferred:
  assumes tr: "transfer_spec ops xs ys zs" and v: "vecs st this = Some v" and hv: "holds st v xs"
    and fresh: "blocks st (next_addr st) = None"
    and full: "capacity' (data' v) = length xs" and small: "length xs < 2 ^ 63"
    and room: "max 1 (2 * length xs) \<le> free_slots st"
  shows "\<exists>st'. PushBack_with ops this (Some y) st = Done () st' \<and>
           vecs st' = (vecs st)(this \<mapsto> \<lparr>data' = \<lparr>buffer' = Some (next_addr st), capacity' = max 1 (2 * length xs)\<rparr>,
                                         size' = Suc (length xs)\<rparr>) \<and>
           holds st' \<lparr>data' = \<lparr>buffer' = Some (next_addr st), capacity' = max 1 (2 * length xs)\<rparr>,
                      size' = Suc (length xs)\<rparr> (ys @ [y]) \<and>
           next_addr st' = Suc (next_addr st)"
proof -
  let ?b = "next_addr st" and ?k = "max 1 (2 * length xs)" and ?n = "length xs"
  let ?nd = "\<lparr>buffer' = Some ?b, capacity' = ?k\<rparr>"
  let ?st1 = "st\<lparr>blocks := (blocks st)(?b \<mapsto> replicate ?k Raw), next_addr := Suc ?b, free_slots := free_slots st - ?k\<rparr>"
  let ?fill = "\<lambda>new_data. bind (on_heap (construct (Some y) (ptr_add (GetAddress new_data) (size' v))))
                 (\<lambda>u. Reallocate ops this new_data)"
  from hv have sv: "size' v = ?n" by (simp add: holds_def)
  have k0: "?k \<noteq> 0" and nk: "?n < ?k" by simp_all
  have shape: "PushBack_with ops this (Some y) st =
      bind (with_new_arena this ?k ?fill) (\<lambda>u. incr_size this) st"
    using full sv grow_factor [OF sv small]
    by (simp add: PushBack_with_shape bind_get_vec [OF v] RawMemory_Capacity_def)
  have v1: "vecs ?st1 this = Some v" using v by simp
  have hv1: "holds ?st1 v xs" and ne: "buffer' (data' v) \<noteq> Some ?b"
    using holds_after_alloc [OF hv fresh] by blast+
  have b1: "blocks ?st1 ?b = Some (replicate ?k Raw)" by simp
  from fill_back [OF tr v1 hv1 b1 ne nk, of y]
  obtain st2 where r: "bind (on_heap (construct (Some y) (Some ?b, ?n)))
                         (\<lambda>u. Reallocate ops this ?nd) ?st1 = Done () st2"
      "vecs st2 = vecs ?st1" "next_addr st2 = next_addr ?st1"
      "blocks st2 ?b = Some (map Obj (ys @ [y]) @ replicate (?k - Suc ?n) Raw)" "holds st2 v zs"
    by blast
  have f: "?fill ?nd ?st1 = Done () st2"
    using r(1) by (simp add: GetAddress_def sv)
  have v2: "vecs st2 = vecs st" using r(2) by simp
  have old: "\<And>a. buffer' (data' v) = Some a \<Longrightarrow> blocks st2 a \<noteq> None"
    using r(5) by (auto simp: holds_def)
  from with_new_arena_at [of st this v ?k ?fill, OF v k0 room f v2 old]
  obtain st3 where w: "with_new_arena this ?k ?fill st = Done () st3"
      "vecs st3 = (vecs st)(this \<mapsto> \<lparr>data' = ?nd, size' = size' v\<rparr>)"
      "next_addr st3 = next_addr st2"
      "\<forall>c. Some c \<noteq> buffer' (data' v) \<longrightarrow> blocks st3 c = blocks st2 c"
    by blast
  from w(4) ne r(4) have b3: "blocks st3 ?b = Some (map Obj (ys @ [y]) @ replicate (?k - Suc ?n) Raw)"
    by auto
  have len: "length (ys @ [y]) = Suc ?n" using transfer_spec_length [OF tr] by simp
  from grown_holds [OF w(2) [unfolded sv] b3 len nk small]
  obtain st' where g: "incr_size this st3 = Done () st'"
      "vecs st' = (vecs st)(this \<mapsto> \<lparr>data' = ?nd, size' = Suc ?n\<rparr>)"
      "holds st' \<lparr>data' = ?nd, size' = Suc ?n\<rparr> (ys @ [y])" "next_addr st' = next_addr st3"
    by blast
  have "PushBack_with ops this (Some y) st = Done () st'"
    unfolding shape by (rule bind_Done_eq, rule w(1), rule g(1))
  with g w(3) r(3) show ?thesis by simp
qed

lemma to_int_small: "0 \<le> i \<Longrightarrow> i < 2 ^ 31 \<Longrightarrow> to_int i = i"
  by (simp add: to_int_def)

lemma bind_RawMemory_plus:
  "off \<le> capacity' nd \<Longrightarrow> bind (RawMemory_plus nd off) f s = f (buffer' nd, off) s"
  by (simp add: bind_def RawMemory_plus_def)

lemma EmplaceBack_transferred:
  assumes tr: "transfer_spec ops xs ys zs" and v: "vecs st this = Some v" and hv: "holds st v xs"
    and fresh: "blocks st (next_addr st) = None"
    and full: "capacity' (data' v) = length xs" and small: "length xs < 2 ^ 63"
    and room: "max 1 (2 * length xs) \<le> free_slots st"
  shows "\<exists>st'. EmplaceBack ops this (Some y) st = Done (Some (next_addr st), length xs) st' \<and>
           vecs st' = (vecs st)(this \<mapsto> \<lparr>data' = \<lparr>buffer' = Some (next_addr st), capacity' = max 1 (2 * length xs)\<rparr>,
                                         size' = Suc (length xs)\<rparr>) \<and>
           holds st' \<lparr>data' = \<lparr>buffer' = Some (next_addr st), capacity' = max 1 (2 * length xs)\<rparr>,
                      size' = Suc (length xs)\<rparr> (ys @ [y]) \<and>
           next_addr st' = Suc (next_addr st)"
proof -
  let ?b = "next_addr st" and ?k = "max 1 (2 * length xs)" and ?n = "length xs"
  let ?nd = "\<lparr>buffer' = Some ?b, capacity' = ?k\<rparr>"
  let ?st1 = "st\<lparr>blocks := (blocks st)(?b \<mapsto> replicate ?k Raw), next_addr := Suc ?b, free_slots := free_slots st - ?k\<rparr>"
  let ?fill = "\<lambda>new_data. bind (RawMemory_plus new_data (size' v)) (\<lambda>p.
                 bind (on_heap (construct (Some y) p)) (\<lambda>u. Reallocate ops this new_data))"
  let ?tail = "\<lambda>u. bind (get_vec this) (\<lambda>w. bind (end_members w) (\<lambda>e. ptr_add_int e (- 1)))"
  from hv have sv: "size' v = ?n" by (simp add: holds_def)
  have k0: "?k \<noteq> 0" and nk: "?n < ?k" by simp_all
  have shape: "EmplaceBack ops this (Some y) st =
      bind (with_new_arena this ?k ?fill) (\<lambda>u. bind (incr_size this) ?tail) st"
    using full sv grow_factor [OF sv small]
    by (simp add: EmplaceBack_shape bind_get_vec [OF v] RawMemory_Capacity_def)
  have v1: "vecs ?st1 this = Some v" using v by simp
  have hv1: "holds ?st1 v xs" and ne: "buffer' (data' v) \<noteq> Some ?b"
    using holds_after_alloc [OF hv fresh] by blast+
  have b1: "blocks ?st1 ?b = Some (replicate ?k Raw)" by simp
  from fill_back [OF tr v1 hv1 b1 ne nk, of y]
  obtain st2 where r: "bind (on_heap (construct (Some y) (Some ?b, ?n)))
                         (\<lambda>u. Reallocate ops this ?nd) ?st1 = Done () st2"
      "vecs st2 = vecs ?st1" "next_addr st2 = next_addr ?st1"
      "blocks st2 ?b = Some (map Obj (ys @ [y]) @ replicate (?k - Suc ?n) Raw)" "holds st2 v zs"
    by blast
  have pl: "\<And>f s. bind (RawMemory_plus ?nd ?n) f s = f (Some ?b, ?n) s"
    using nk by (simp add: bind_RawMemory_plus)
  have f: "?fill ?nd ?st1 = Done () st2"
    by (simp only: sv pl r(1))
  have v2: "vecs st2 = vecs st" using r(2) by simp
  have old: "\<And>a. buffer' (data' v) = Some a \<Longrightarrow> blocks st2 a \<noteq> None"
    using r(5) by (auto simp: holds_def)
  from with_new_arena_at [of st this v ?k ?fill, OF v k0 room f v2 old]
  obtain st3 where w: "with_new_arena this ?k ?fill st = Done () st3"
      "vecs st3 = (vecs st)(this \<mapsto> \<lparr>data' = ?nd, size' = size' v\<rparr>)"
      "next_addr st3 = next_addr st2"
      "\<forall>c. Some c \<noteq> buffer' (data' v) \<longrightarrow> blocks st3 c = blocks st2 c"
    by blast
  from w(4) ne r(4) have b3: "blocks st3 ?b = Some (map Obj (ys @ [y]) @ replicate (?k - Suc ?n) Raw)"
    by auto
  have len: "length (ys @ [y]) = Suc ?n" using transfer_spec_length [OF tr] by simp
  from grown_holds [OF w(2) [unfolded sv] b3 len nk small]
  obtain st' where g: "incr_size this st3 = Done () st'"
      "vecs st' = (vecs st)(this \<mapsto> \<lparr>data' = ?nd, size' = Suc ?n\<rparr>)"
      "holds st' \<lparr>data' = ?nd, size' = Suc ?n\<rparr> (ys @ [y])" "next_addr st' = next_addr st3"
    by blast
  have t: "?tail () st' = Done (Some ?b, ?n) st'"
    using g(2) nk
    by (simp add: bind_def get_vec_def end_members_def RawMemory_plus_def ptr_add_int_def)
  have "EmplaceBack ops this (Some y) st = Done (Some ?b, ?n) st'"
    unfolding shape by (rule bind_Done_eq, rule w(1), rule bind_Done_eq, rule g(1), rule t)
  with g w(3) r(3) show ?thesis by simp
qed

lemma Emplace_transferred:
  assumes tr: "transfer_spec ops xs ys zs" and v: "vecs st this = Some v" and hv: "holds st v xs"
    and fresh: "blocks st (next_addr st) = None"
    and full: "capacity' (data' v) = length xs" and small: "length xs < 2 ^ 63"
    and room: "max 1 (2 * length xs) \<le> free_slots st"
    and p: "p \<le> length xs" "p < 2 ^ 31"
  shows "\<exists>st'. Emplace ops this p (Some y) st = Done (Some (next_addr st), p) st' \<and>
           vecs st' = (vecs st)(this \<mapsto> \<lparr>data' = \<lparr>buffer' = Some (next_addr st), capacity' = max 1 (2 * length xs)\<rparr>,
                                         size' = Suc (length xs)\<rparr>) \<and>
           holds st' \<lparr>data' = \<lparr>buffer' = Some (next_addr st), capacity' = max 1 (2 * length xs)\<rparr>,
                      size' = Suc (length xs)\<rparr> (take p ys @ y # drop p ys) \<and>
           next_addr st' = Suc (next_addr st)"
proof -
  let ?b = "next_addr st" and ?k = "max 1 (2 * length xs)" and ?n = "length xs"
  let ?nd = "\<lparr>buffer' = Some ?b, capacity' = ?k\<rparr>"
  let ?st1 = "st\<lparr>blocks := (blocks st)(?b \<mapsto> replicate ?k Raw), next_addr := Suc ?b, free_slots := free_slots st - ?k\<rparr>"
  let ?fill = "\<lambda>new_data. bind (RawMemory_plus new_data p) (\<lambda>q.
                 bind (on_heap (construct (Some y) q)) (\<lambda>u. Emplace_transfer ops v (int p) new_data))"
  let ?tail = "\<lambda>u. bind (get_vec this) (\<lambda>w. ptr_add_int (begin_members w) (int p))"
  from hv have sv: "size' v = ?n" by (simp add: holds_def)
  have k0: "?k \<noteq> 0" and nk: "?n < ?k" by simp_all
  from p(2) have pn: "to_int (int p) = int p" by (simp add: to_int_small)
  from p(2) have "int p < 2 ^ 64" by (simp add: order_less_trans [of _ "2 ^ 31"])
  then have sp: "size_t (int p) = p" by (simp add: size_t_small)
  from full sv have grow: "RawMemory_Capacity (data' v) = size' v" by (simp add: RawMemory_Capacity_def)
  have shape: "Emplace ops this p (Some y) st =
      bind (with_new_arena this ?k ?fill) (\<lambda>u. bind (incr_size this) ?tail) st"
    unfolding Emplace_grow_shape [OF v grow] pn sp grow_factor [OF sv small] by (rule refl)
  have v1: "vecs ?st1 this = Some v" using v by simp
  have hv1: "holds ?st1 v xs" and ne: "buffer' (data' v) \<noteq> Some ?b"
    using holds_after_alloc [OF hv fresh] by blast+
  have b1: "blocks ?st1 ?b = Some (replicate ?k Raw)" by simp
  from small have small': "?n < 2 ^ 64" by (simp add: order_less_trans [of _ "2 ^ 63"])
  from fill_emplace [OF tr hv1 b1 ne nk p(1) small', of y]
  obtain st2 where r: "bind (on_heap (construct (Some y) (Some ?b, p)))
                         (\<lambda>u. Emplace_transfer ops v (int p) ?nd) ?st1 = Done () st2"
      "vecs st2 = vecs ?st1" "next_addr st2 = next_addr ?st1"
      "blocks st2 ?b = Some (map Obj (take p ys @ y # drop p ys) @ replicate (?k - Suc ?n) Raw)"
      "holds st2 v zs"
    by blast
  have pl: "\<And>f s. bind (RawMemory_plus ?nd p) f s = f (Some ?b, p) s"
    using nk p(1) by (simp add: bind_RawMemory_plus)
  have f: "?fill ?nd ?st1 = Done () st2"
    by (simp only: pl r(1))
  have v2: "vecs st2 = vecs st" using r(2) by simp
  have old: "\<And>a. buffer' (data' v) = Some a \<Longrightarrow> blocks st2 a \<noteq> None"
    using r(5) by (auto simp: holds_def)
  from with_new_arena_at [of st this v ?k ?fill, OF v k0 room f v2 old]
  obtain st3 where w: "with_new_arena this ?k ?fill st = Done () st3"
      "vecs st3 = (vecs st)(this \<mapsto> \<lparr>data' = ?nd, size' = size' v\<rparr>)"
      "next_addr st3 = next_addr st2"
      "\<forall>c. Some c \<noteq> buffer' (data' v) \<longrightarrow> blocks st3 c = blocks st2 c"
    by blast
  from w(4) ne r(4)
  have b3: "blocks st3 ?b = Some (map Obj (take p ys @ y # drop p ys) @ replicate (?k - Suc ?n) Raw)"
    by auto
  have len: "length (take p ys @ y # drop p ys) = Suc ?n"
    using transfer_spec_length [OF tr] p(1) by simp
  from grown_holds [OF w(2) [unfolded sv] b3 len nk small]
  obtain st' where g: "incr_size this st3 = Done () st'"
      "vecs st' = (vecs st)(this \<mapsto> \<lparr>data' = ?nd, size' = Suc ?n\<rparr>)"
      "holds st' \<lparr>data' = ?nd, size' = Suc ?n\<rparr> (take p ys @ y # drop p ys)" "next_addr st' = next_addr st3"
    by blast
  have t: "?tail () st' = Done (Some ?b, p) st'"
    using g(2)
    by (simp add: bind_def get_vec_def begin_members_def GetAddress_def ptr_add_int_def)
  have "Emplace ops this p (Some y) st = Done (Some ?b, p) st'"
    unfolding shape by (rule bind_Done_eq, rule w(1), rule bind_Done_eq, rule g(1), rule t)
  with g w(3) r(3) show ?thesis by simp
qed

section \<open>Failure while growing: what may throw, and what it leaves\<close>
















section \<open>A move constructor that throws during the transfer\<close>















section \<open>Removal at the end\<close>

text \<open>
  C1. \<^verbatim>\<open>PopBack\<close> is to destroy the last live element, the one at index \<open>size - 1\<close>.
  The code passes \<^verbatim>\<open>data_.GetAddress() + size_\<close> to \<^verbatim>\<open>std::destroy_n\<close>, the slot after
  it. On the vector built by \<^verbatim>\<open>PushBack\<close> of 1, 2 and 3 (capacity 4) the size goes from
  3 to 2, and the element at index 2 is still alive in its slot: no destructor ran for it.
\<close>

theorem PopBack_leaves_last_element_alive:
  "(case and_then (Vector_default 0) (and_then (PushBack int_ops 0 1)
           (and_then (PushBack int_ops 0 2) (PushBack int_ops 0 3))) (init 100) of
      Done u st \<Rightarrow>
        vecs st 0 = Some \<lparr>data' = \<lparr>buffer' = Some 2, capacity' = 4\<rparr>, size' = 3\<rparr> \<and>
        slots st 0 = [Obj 1, Obj 2, Obj 3, Raw] \<and>
        (case PopBack 0 st of
           Done u' st' \<Rightarrow>
             vecs st' 0 = Some \<lparr>data' = \<lparr>buffer' = Some 2, capacity' = 4\<rparr>, size' = 2\<rparr> \<and>
             slots st' 0 = [Obj 1, Obj 2, Obj 3, Raw]
         | Thrown e st' \<Rightarrow> False
         | Fault x \<Rightarrow> False)
    | Thrown e st \<Rightarrow> False
    | Fault x \<Rightarrow> False)"
  by code_simp

section \<open>Insertion followed by removal\<close>

text \<open>
  C2. Inserting at a valid position and erasing there is to restore the sequence. On an
  empty vector with spare capacity (\<^verbatim>\<open>Reserve(1)\<close>), \<^verbatim>\<open>Insert(begin(), 7)\<close> takes the
  branch without growth, which reads \<^verbatim>\<open>data_[size_ - 1]\<close>: the index wraps to
  \<open>2 ^ 64 - 1\<close> and the assertion of \<^verbatim>\<open>RawMemory::operator[]\<close> fails. No element is
  inserted.
\<close>

theorem Insert_into_reserved_empty_vector_fails:
  "and_then (Vector_default 0) (and_then (Reserve int_ops 0 1) (Insert int_ops 0 0 7)) (init 100)
     = Fault Assertion_Failed"
  by (simp add: run_defs)

section \<open>Move assignment\<close>

text \<open>
  C3. Move assignment is to release what the left side owned. With \<open>L = [1]\<close> (object 0)
  and \<open>R = [2, 3]\<close> (object 1), after \<^verbatim>\<open>L = std::move(R)\<close> the left side has the arena,
  size and elements of \<open>R\<close> and \<open>R\<close> is empty, but the block \<open>L\<close> owned (address 0) is
  still allocated and its element still alive, and no vector refers to it.
\<close>

theorem move_assignment_leaks_left_arena:
  "(case and_then (Vector_default 0) (and_then (PushBack int_ops 0 1)
          (and_then (Vector_default 1) (and_then (PushBack int_ops 1 2) (PushBack int_ops 1 3)))) (init 100) of
      Done u st \<Rightarrow>
        vecs st 0 = Some \<lparr>data' = \<lparr>buffer' = Some 0, capacity' = 1\<rparr>, size' = 1\<rparr> \<and>
        vecs st 1 = Some \<lparr>data' = \<lparr>buffer' = Some 2, capacity' = 2\<rparr>, size' = 2\<rparr> \<and>
        blocks st 0 = Some [Obj 1] \<and>
        blocks st 2 = Some [Obj 2, Obj 3] \<and>
        (case Vector_assign_move 0 1 st of
           Done u' st' \<Rightarrow>
             vecs st' 0 = Some \<lparr>data' = \<lparr>buffer' = Some 2, capacity' = 2\<rparr>, size' = 2\<rparr> \<and>
             vecs st' 1 = Some \<lparr>data' = \<lparr>buffer' = None, capacity' = 0\<rparr>, size' = 0\<rparr> \<and>
             blocks st' 2 = Some [Obj 2, Obj 3] \<and>
             blocks st' 0 = Some [Obj 1] \<and>
             free_slots st' = free_slots st
         | Thrown e st' \<Rightarrow> False
         | Fault x \<Rightarrow> False)
    | Thrown e st \<Rightarrow> False
    | Fault x \<Rightarrow> False)"
  by code_simp

section \<open>Move construction\<close>

text \<open>
  C8. Move construction of a new vector \<open>s2\<close> from \<open>s1\<close> always returns; \<open>s2\<close> has the
  arena (so the capacity and the elements) and the size \<open>s1\<close> had, \<open>s1\<close> is left with no
  arena, capacity 0 and size 0, and neither a block nor the allocator is touched.
\<close>

theorem Vector_move_transfers:
  assumes "vecs st s1 = Some v" and "vecs st s2 = None"
  shows "Vector_move s2 s1 st =
           Done () (st\<lparr>vecs := (vecs st)(s2 \<mapsto> v,
                      s1 \<mapsto> \<lparr>data' = \<lparr>buffer' = None, capacity' = 0\<rparr>, size' = 0\<rparr>)\<rparr>)"
proof (cases v)
  case (fields d n)
  then show ?thesis
    using assms
    by (cases d)
      (simp add: Vector_move_def bind_def get_vec_def new_vec_def put_vec_def
        RawMemory_move_assign_def RawMemory_default_def)
qed

theorem Vector_move_transfers_witness:
  "vecs st_12 0 = Some \<lparr>data' = \<lparr>buffer' = Some 1, capacity' = 2\<rparr>, size' = 2\<rparr> \<and>
   vecs st_12 1 = None \<and>
   Vector_move 1 0 st_12 =
     Done () (st_12\<lparr>vecs := (vecs st_12)(1 \<mapsto> \<lparr>data' = \<lparr>buffer' = Some 1, capacity' = 2\<rparr>, size' = 2\<rparr>,
                0 \<mapsto> \<lparr>data' = \<lparr>buffer' = None, capacity' = 0\<rparr>, size' = 0\<rparr>)\<rparr>)"
proof -
  have v0: "vecs st_12 0 = Some \<lparr>data' = \<lparr>buffer' = Some 1, capacity' = 2\<rparr>, size' = 2\<rparr>"
    by (simp add: st_12_def)
  have v1: "vecs st_12 1 = None"
    by (simp add: st_12_def)
  show ?thesis
    using Vector_move_transfers [OF v0 v1] v0 v1 by simp
qed

section \<open>The invariant after \<^verbatim>\<open>PopBack\<close>\<close>

text \<open>
  C9. Every sequence reached by public operations is to satisfy the invariant. After
  \<^verbatim>\<open>PushBack(1)\<close> on a new vector the invariant holds; after \<^verbatim>\<open>PopBack()\<close> the size is 0
  and slot 0, which is in \<open>[size, capacity)\<close>, still holds the element: the invariant is
  broken. The cause is the address \<^verbatim>\<open>PopBack\<close> destroys, as for C1.
\<close>

theorem PopBack_breaks_invariant:
  "(case and_then (Vector_default 0) (PushBack int_ops 0 1) (init 100) of
      Done u st \<Rightarrow>
        vector_inv st 0 \<and>
        (case PopBack 0 st of
           Done u' st' \<Rightarrow>
             \<not> vector_inv st' 0 \<and>
             vecs st' 0 = Some \<lparr>data' = \<lparr>buffer' = Some 0, capacity' = 1\<rparr>, size' = 0\<rparr> \<and>
             slots st' 0 = [Obj 1]
         | Thrown e st' \<Rightarrow> False
         | Fault x \<Rightarrow> False)
    | Thrown e st \<Rightarrow> False
    | Fault x \<Rightarrow> False)"
  by code_simp

section \<open>Self-assignment\<close>

text \<open>
  C10. Both assignment operators test \<^verbatim>\<open>this != &rhs\<close> first: assigning a vector to
  itself, by copy or by move, returns with the whole state as it was.
\<close>

theorem self_assignment_is_noop:
  "Vector_assign ops v v st = Done () st \<and> Vector_assign_move v v st = Done () st"
  by (simp add: Vector_assign_def Vector_assign_move_def ret_def)

section \<open>Failure while growing\<close>




section \<open>Capacity\<close>

text \<open>
  C5, as the code has it. Let the vector \<open>this\<close> hold fewer than \<open>2 ^ 63\<close> elements.
  Whether they return or throw, \<^verbatim>\<open>Reserve\<close>, \<^verbatim>\<open>Resize\<close>, \<^verbatim>\<open>PushBack\<close>, \<^verbatim>\<open>EmplaceBack\<close>,
  \<^verbatim>\<open>Emplace\<close>, \<^verbatim>\<open>Insert\<close>, \<^verbatim>\<open>Erase\<close>, \<^verbatim>\<open>PopBack\<close> and copy assignment leave \<open>this\<close> with a
  capacity that is not smaller, having allocated at most one block; and when
  \<open>size = capacity = C\<close>, a \<^verbatim>\<open>PushBack\<close>, \<^verbatim>\<open>EmplaceBack\<close>, \<^verbatim>\<open>Emplace\<close> or \<^verbatim>\<open>Insert\<close> that
  returns leaves the capacity \<open>max 1 (2 * C)\<close>.
\<close>

theorem capacity_grows_only_by_one_reallocation:
  assumes v: "vecs st this = Some v" and small: "size' v < 2 ^ 63"
  shows "(final_state (Reserve ops this n st) = Some st' \<longrightarrow> grows_from (capacity' (data' v)) this st st') \<and>
         (final_state (Resize ops this n st) = Some st' \<longrightarrow> grows_from (capacity' (data' v)) this st st') \<and>
         (final_state (PushBack ops this x st) = Some st' \<longrightarrow> grows_from (capacity' (data' v)) this st st') \<and>
         (final_state (PushBack_move ops this x st) = Some st' \<longrightarrow> grows_from (capacity' (data' v)) this st st') \<and>
         (final_state (EmplaceBack ops this mk st) = Some st' \<longrightarrow> grows_from (capacity' (data' v)) this st st') \<and>
         (final_state (Emplace ops this pos mk st) = Some st' \<longrightarrow> grows_from (capacity' (data' v)) this st st') \<and>
         (final_state (Insert ops this pos x st) = Some st' \<longrightarrow> grows_from (capacity' (data' v)) this st st') \<and>
         (final_state (Insert_move ops this pos x st) = Some st' \<longrightarrow> grows_from (capacity' (data' v)) this st st') \<and>
         (final_state (Erase ops this pos st) = Some st' \<longrightarrow> grows_from (capacity' (data' v)) this st st') \<and>
         (final_state (PopBack this st) = Some st' \<longrightarrow> grows_from (capacity' (data' v)) this st st') \<and>
         (final_state (Vector_assign ops this rhs st) = Some st' \<longrightarrow> grows_from (capacity' (data' v)) this st st') \<and>
         (capacity' (data' v) = size' v \<longrightarrow>
            (PushBack ops this x st = Done u st' \<longrightarrow>
               map_option (capacity' \<circ> data') (vecs st' this) = Some (max 1 (2 * capacity' (data' v)))) \<and>
            (PushBack_move ops this x st = Done u st' \<longrightarrow>
               map_option (capacity' \<circ> data') (vecs st' this) = Some (max 1 (2 * capacity' (data' v)))) \<and>
            (EmplaceBack ops this mk st = Done p st' \<longrightarrow>
               map_option (capacity' \<circ> data') (vecs st' this) = Some (max 1 (2 * capacity' (data' v)))) \<and>
            (Emplace ops this pos mk st = Done p st' \<longrightarrow>
               map_option (capacity' \<circ> data') (vecs st' this) = Some (max 1 (2 * capacity' (data' v)))) \<and>
            (Insert ops this pos x st = Done p st' \<longrightarrow>
               map_option (capacity' \<circ> data') (vecs st' this) = Some (max 1 (2 * capacity' (data' v)))) \<and>
            (Insert_move ops this pos x st = Done p st' \<longrightarrow>
               map_option (capacity' \<circ> data') (vecs st' this) = Some (max 1 (2 * capacity' (data' v)))))"
proof -
  have a: "final_state (Reserve ops this n st) = Some st' \<longrightarrow> grows_from (capacity' (data' v)) this st st'"
    using Reserve_grows [OF _ v] by blast
  have b: "final_state (Resize ops this n st) = Some st' \<longrightarrow> grows_from (capacity' (data' v)) this st st'"
    using Resize_grows [OF _ v] by blast
  have c: "final_state (PushBack_with ops this mk' st) = Some st' \<longrightarrow> grows_from (capacity' (data' v)) this st st'" for mk'
    using PushBack_with_grows [OF _ v small] by blast
  have d: "final_state (EmplaceBack ops this mk st) = Some st' \<longrightarrow> grows_from (capacity' (data' v)) this st st'"
    using EmplaceBack_grows [OF _ v small] by blast
  have e: "final_state (Emplace ops this pos mk' st) = Some st' \<longrightarrow> grows_from (capacity' (data' v)) this st st'" for mk'
    using Emplace_grows [OF _ v small] by blast
  have f: "final_state (Erase ops this pos st) = Some st' \<longrightarrow> grows_from (capacity' (data' v)) this st st'"
    using Erase_grows [OF _ v] by blast
  have g: "final_state (PopBack this st) = Some st' \<longrightarrow> grows_from (capacity' (data' v)) this st st'"
    using PopBack_grows [OF _ v] by blast
  have h: "final_state (Vector_assign ops this rhs st) = Some st' \<longrightarrow> grows_from (capacity' (data' v)) this st st'"
    using Vector_assign_grows [OF _ v] by blast
  have i: "PushBack_with ops this mk' st = Done u st' \<longrightarrow>
             map_option (capacity' \<circ> data') (vecs st' this) = Some (max 1 (2 * capacity' (data' v)))"
    if "capacity' (data' v) = size' v" for mk'
    using PushBack_with_Done_vecs [OF _ v small, of ops mk' u st'] that by auto
  have j: "EmplaceBack ops this mk st = Done p st' \<longrightarrow>
             map_option (capacity' \<circ> data') (vecs st' this) = Some (max 1 (2 * capacity' (data' v)))"
    if "capacity' (data' v) = size' v"
    using EmplaceBack_Done_vecs [OF _ v small, of ops mk p st'] that by auto
  have k: "Emplace ops this pos mk' st = Done p st' \<longrightarrow>
             map_option (capacity' \<circ> data') (vecs st' this) = Some (max 1 (2 * capacity' (data' v)))"
    if "capacity' (data' v) = size' v" for mk'
    using Emplace_Done_vecs [OF _ v small, of ops pos mk' p st'] that by auto
  show ?thesis
    unfolding PushBack_def PushBack_move_def Insert_def Insert_move_def
    using a b c d e f g h i j k by simp
qed

text \<open>\<^verbatim>\<open>PushBack(3)\<close> on the full vector \<open>[1, 2]\<close>: the capacity goes from 2 to 4 with one allocation.\<close>

theorem capacity_grows_only_by_one_reallocation_witness:
  "vecs st_12 0 = Some \<lparr>data' = \<lparr>buffer' = Some 1, capacity' = 2\<rparr>, size' = 2\<rparr> \<and>
   (2 :: nat) < 2 ^ 63 \<and>
   (case PushBack int_ops 0 3 st_12 of
      Done u st' \<Rightarrow>
        grows_from 2 0 st_12 st' \<and> map_option (capacity' \<circ> data') (vecs st' 0) = Some 4
    | Thrown e st' \<Rightarrow> False
    | Fault x \<Rightarrow> False)"
proof -
  let ?v = "\<lparr>data' = \<lparr>buffer' = Some 1, capacity' = 2\<rparr>, size' = 2\<rparr>"
  have h1: "vecs st_12 0 = Some ?v"
    by (simp add: st_12_def)
  have h2: "size' ?v < 2 ^ 63"
    by simp
  have ev: "(case PushBack int_ops 0 3 st_12 of Done u st' \<Rightarrow> True | Thrown e st' \<Rightarrow> False | Fault x \<Rightarrow> False)"
    by code_simp
  show ?thesis
  proof (cases "PushBack int_ops 0 3 st_12")
    case (Done u st')
    from capacity_grows_only_by_one_reallocation [OF h1 h2, of int_ops _ st' 3 _ _ _ u]
    have "final_state (PushBack int_ops 0 3 st_12) = Some st' \<longrightarrow> grows_from 2 0 st_12 st'"
      and "PushBack int_ops 0 3 st_12 = Done u st' \<longrightarrow>
             map_option (capacity' \<circ> data') (vecs st' 0) = Some (max 1 (2 * 2))"
      by simp_all
    with Done h1 show ?thesis by simp
  next
    case (Thrown e st')
    with ev show ?thesis by simp
  next
    case (Fault x)
    with ev show ?thesis by simp
  qed
qed

text \<open>
  The claim as stated, for any operation, fails: \<^verbatim>\<open>Swap\<close> exchanges the arenas, so the
  capacity of a vector swapped with an empty one drops to 0. (Move assignment, and being
  the source of a move, give the arena away in the same manner.)
\<close>

theorem Swap_decreases_capacity:
  "(case and_then (Vector_default 0) (and_then (PushBack int_ops 0 1) (Vector_default 1)) (init 100) of
      Done u st \<Rightarrow>
        map_option (capacity' \<circ> data') (vecs st 0) = Some 1 \<and>
        (case Swap 0 1 st of
           Done u' st' \<Rightarrow> map_option (capacity' \<circ> data') (vecs st' 0) = Some 0
         | Thrown e st' \<Rightarrow> False
         | Fault x \<Rightarrow> False)
    | Thrown e st \<Rightarrow> False
    | Fault x \<Rightarrow> False)"
  by code_simp


section \<open>Copy assignment\<close>

text \<open>
  Claim C7. For distinct vectors \<open>L\<close> (\<open>this\<close>, holding \<open>ls\<close>) and \<open>R\<close> (\<open>rhs\<close>, holding
  \<open>rs\<close>) with separate arenas, and an element type whose copy constructor and copy
  assignment produce a value equal to their source where they are applied: \<^verbatim>\<open>L = R\<close>
  returns with \<open>L\<close> holding exactly \<open>rs\<close> (so \<open>L.size = R.size\<close>) and \<open>R\<close> unchanged.
  If \<open>R.size > L.capacity\<close> and the allocator has room, \<open>L\<close> gets a new arena of capacity
  \<open>R.size\<close> with the copies and its previous block is deallocated; if that branch throws
  (the allocation, or a copy constructor), every vector and every block is as before the
  call. Otherwise \<open>L\<close> keeps its arena and no block is allocated: the common prefix is
  copy-assigned, and then the elements of \<open>L\<close> beyond \<open>R.size\<close> are destroyed, or the
  elements of \<open>R\<close> beyond \<open>L.size\<close> are copy-constructed into the raw slots.
\<close>

theorem copy_assignment_copies:
  assumes "this \<noteq> rhs" and "vecs st this = Some v" and "vecs st rhs = Some r"
    and "holds st v ls" and "holds st r rs"
    and "buffer' (data' v) = None \<or> buffer' (data' v) \<noteq> buffer' (data' r)"
    and "blocks st (next_addr st) = None"
  shows "(capacity' (data' v) < length rs \<longrightarrow>
            (length rs \<le> free_slots st \<and> list_all (\<lambda>x. copy_ctor ops x = Some x) rs \<longrightarrow>
               (\<exists>st'. Vector_assign ops this rhs st = Done () st' \<and>
                  vecs st' this = Some \<lparr>data' = \<lparr>buffer' = Some (next_addr st), capacity' = length rs\<rparr>, size' = length rs\<rparr> \<and>
                  holds st' \<lparr>data' = \<lparr>buffer' = Some (next_addr st), capacity' = length rs\<rparr>, size' = length rs\<rparr> rs \<and>
                  vecs st' rhs = Some r \<and> holds st' r rs \<and>
                  (\<forall>a. buffer' (data' v) = Some a \<longrightarrow> blocks st' a = None))) \<and>
            (\<forall>e st'. Vector_assign ops this rhs st = Thrown e st' \<longrightarrow> vecs st' = vecs st \<and> blocks st' = blocks st)) \<and>
         (length rs \<le> capacity' (data' v) \<and>
          list_all2 (\<lambda>d x. copy_assign ops d x = Some x) (take (length rs) ls) (take (length ls) rs) \<and>
          list_all (\<lambda>x. copy_ctor ops x = Some x) (drop (length ls) rs) \<longrightarrow>
            (\<exists>st'. Vector_assign ops this rhs st = Done () st' \<and>
               vecs st' this = Some \<lparr>data' = data' v, size' = length rs\<rparr> \<and>
               holds st' \<lparr>data' = data' v, size' = length rs\<rparr> rs \<and>
               vecs st' rhs = Some r \<and> holds st' r rs \<and> next_addr st' = next_addr st))"
proof (intro conjI impI allI)
  assume "capacity' (data' v) < length rs"
    and "length rs \<le> free_slots st \<and> list_all (\<lambda>x. copy_ctor ops x = Some x) rs"
  with assms show "\<exists>st'. Vector_assign ops this rhs st = Done () st' \<and>
      vecs st' this = Some \<lparr>data' = \<lparr>buffer' = Some (next_addr st), capacity' = length rs\<rparr>, size' = length rs\<rparr> \<and>
      holds st' \<lparr>data' = \<lparr>buffer' = Some (next_addr st), capacity' = length rs\<rparr>, size' = length rs\<rparr> rs \<and>
      vecs st' rhs = Some r \<and> holds st' r rs \<and>
      (\<forall>a. buffer' (data' v) = Some a \<longrightarrow> blocks st' a = None)"
    by (intro Vector_assign_realloc) simp_all
next
  fix e st'
  assume big: "capacity' (data' v) < length rs" and run: "Vector_assign ops this rhs st = Thrown e st'"
  from \<open>holds st r rs\<close> big have "capacity' (data' v) < size' r" by (simp add: holds_def)
  with run assms have *: "vecs st' = vecs st \<and> blocks st' = blocks st"
    by (intro Vector_assign_realloc_Thrown [of ops this rhs st e st' v r]) simp_all
  from * show "vecs st' = vecs st" ..
  from * show "blocks st' = blocks st" ..
next
  assume "length rs \<le> capacity' (data' v) \<and>
          list_all2 (\<lambda>d x. copy_assign ops d x = Some x) (take (length rs) ls) (take (length ls) rs) \<and>
          list_all (\<lambda>x. copy_ctor ops x = Some x) (drop (length ls) rs)"
  with assms show "\<exists>st'. Vector_assign ops this rhs st = Done () st' \<and>
               vecs st' this = Some \<lparr>data' = data' v, size' = length rs\<rparr> \<and>
               holds st' \<lparr>data' = data' v, size' = length rs\<rparr> rs \<and>
               vecs st' rhs = Some r \<and> holds st' r rs \<and> next_addr st' = next_addr st"
    by (intro Vector_assign_in_place [where ls = ls]) simp_all
qed

theorem copy_assignment_copies_witness:
  "(\<exists>st'. Vector_assign int_ops 0 1 st_12_789 = Done () st' \<and>
      vecs st' 0 = Some \<lparr>data' = \<lparr>buffer' = Some 3, capacity' = 3\<rparr>, size' = 3\<rparr> \<and>
      holds st' \<lparr>data' = \<lparr>buffer' = Some 3, capacity' = 3\<rparr>, size' = 3\<rparr> [7, 8, 9] \<and>
      blocks st' 1 = None) \<and>
   (\<exists>st'. Vector_assign int_ops 1 0 st_12_789 = Done () st' \<and>
      vecs st' 1 = Some \<lparr>data' = \<lparr>buffer' = Some 2, capacity' = 4\<rparr>, size' = 2\<rparr> \<and>
      holds st' \<lparr>data' = \<lparr>buffer' = Some 2, capacity' = 4\<rparr>, size' = 2\<rparr> [1, 2] \<and>
      next_addr st' = 3)"
proof -
  let ?v = "\<lparr>data' = \<lparr>buffer' = Some 1, capacity' = 2\<rparr>, size' = 2\<rparr>"
  let ?r = "\<lparr>data' = \<lparr>buffer' = Some 2, capacity' = 4\<rparr>, size' = 3\<rparr>"
  have v: "vecs st_12_789 0 = Some ?v" and r: "vecs st_12_789 1 = Some ?r"
    by (simp_all add: st_12_789_def)
  have hv: "holds st_12_789 ?v [1, 2]" and hr: "holds st_12_789 ?r [7, 8, 9]"
    by (simp_all add: holds_def st_12_789_def)
  have fresh: "blocks st_12_789 (next_addr st_12_789) = None"
    and na: "next_addr st_12_789 = 3"
    by (simp_all add: st_12_789_def)
  have vr: "buffer' (data' ?v) = None \<or> buffer' (data' ?v) \<noteq> buffer' (data' ?r)"
    and rv: "buffer' (data' ?r) = None \<or> buffer' (data' ?r) \<noteq> buffer' (data' ?v)"
    by simp_all
  have big: "capacity' (data' ?v) < length [7, 8, 9 :: int]" by simp
  have room: "length [7, 8, 9 :: int] \<le> free_slots st_12_789 \<and>
      list_all (\<lambda>x. copy_ctor int_ops x = Some x) [7, 8, 9]"
    by (simp add: st_12_789_def int_ops_def)
  have small: "length [1, 2 :: int] \<le> capacity' (data' ?r) \<and>
      list_all2 (\<lambda>d x. copy_assign int_ops d x = Some x)
        (take (length [1, 2 :: int]) [7, 8, 9]) (take (length [7, 8, 9 :: int]) [1, 2]) \<and>
      list_all (\<lambda>x. copy_ctor int_ops x = Some x) (drop (length [7, 8, 9 :: int]) [1, 2])"
    by (simp add: int_ops_def)
  have ne: "(0::nat) \<noteq> 1" and ne': "(1::nat) \<noteq> 0" by simp_all
  have len: "length [7, 8, 9 :: int] = 3" "length [1, 2 :: int] = 2" "data' ?r = \<lparr>buffer' = Some 2, capacity' = 4\<rparr>"
    by simp_all
  from copy_assignment_copies [OF ne v r hv hr vr fresh, of int_ops]
  have "\<exists>st'. Vector_assign int_ops 0 1 st_12_789 = Done () st' \<and>
      vecs st' 0 = Some \<lparr>data' = \<lparr>buffer' = Some (next_addr st_12_789), capacity' = length [7, 8, 9 :: int]\<rparr>,
                          size' = length [7, 8, 9 :: int]\<rparr> \<and>
      holds st' \<lparr>data' = \<lparr>buffer' = Some (next_addr st_12_789), capacity' = length [7, 8, 9 :: int]\<rparr>,
                          size' = length [7, 8, 9 :: int]\<rparr> [7, 8, 9] \<and>
      vecs st' 1 = Some ?r \<and> holds st' ?r [7, 8, 9] \<and>
      (\<forall>a. buffer' (data' ?v) = Some a \<longrightarrow> blocks st' a = None)"
    using big room by blast
  then obtain s1 where s1: "Vector_assign int_ops 0 1 st_12_789 = Done () s1"
      "vecs s1 0 = Some \<lparr>data' = \<lparr>buffer' = Some (next_addr st_12_789), capacity' = length [7, 8, 9 :: int]\<rparr>,
                          size' = length [7, 8, 9 :: int]\<rparr>"
      "holds s1 \<lparr>data' = \<lparr>buffer' = Some (next_addr st_12_789), capacity' = length [7, 8, 9 :: int]\<rparr>,
                          size' = length [7, 8, 9 :: int]\<rparr> [7, 8, 9]"
      "\<forall>a. buffer' (data' ?v) = Some a \<longrightarrow> blocks s1 a = None"
    by blast
  from s1(4) have "blocks s1 1 = None" by simp
  with s1(1-3) [unfolded na len] have 1: "\<exists>st'. Vector_assign int_ops 0 1 st_12_789 = Done () st' \<and>
      vecs st' 0 = Some \<lparr>data' = \<lparr>buffer' = Some 3, capacity' = 3\<rparr>, size' = 3\<rparr> \<and>
      holds st' \<lparr>data' = \<lparr>buffer' = Some 3, capacity' = 3\<rparr>, size' = 3\<rparr> [7, 8, 9] \<and>
      blocks st' 1 = None"
    by blast
  from copy_assignment_copies [OF ne' r v hr hv rv fresh, of int_ops]
  have "\<exists>st'. Vector_assign int_ops 1 0 st_12_789 = Done () st' \<and>
      vecs st' 1 = Some \<lparr>data' = data' ?r, size' = length [1, 2 :: int]\<rparr> \<and>
      holds st' \<lparr>data' = data' ?r, size' = length [1, 2 :: int]\<rparr> [1, 2] \<and>
      vecs st' 0 = Some ?v \<and> holds st' ?v [1, 2] \<and> next_addr st' = next_addr st_12_789"
    using small by blast
  then obtain s2 where s2: "Vector_assign int_ops 1 0 st_12_789 = Done () s2"
      "vecs s2 1 = Some \<lparr>data' = data' ?r, size' = length [1, 2 :: int]\<rparr>"
      "holds s2 \<lparr>data' = data' ?r, size' = length [1, 2 :: int]\<rparr> [1, 2]"
      "next_addr s2 = next_addr st_12_789"
    by blast
  from this [unfolded na len] have 2: "\<exists>st'. Vector_assign int_ops 1 0 st_12_789 = Done () st' \<and>
      vecs st' 1 = Some \<lparr>data' = \<lparr>buffer' = Some 2, capacity' = 4\<rparr>, size' = 2\<rparr> \<and>
      holds st' \<lparr>data' = \<lparr>buffer' = Some 2, capacity' = 4\<rparr>, size' = 2\<rparr> [1, 2] \<and>
      next_addr st' = 3"
    by blast
  from 1 2 show ?thesis by (rule conjI)
qed

section \<open>Move or copy on growth\<close>

text \<open>
  Claim C6. Let the vector \<open>this\<close> hold the elements \<open>xs\<close>, and let \<open>ys\<close> and \<open>zs\<close> be what
  \<open>transfer_spec\<close> prescribes for the element type: move construction if its move
  constructor cannot throw or it is not copy-constructible, copy construction otherwise,
  chosen from the two traits alone. Then the code transfers in exactly that way.
  \<^verbatim>\<open>Reallocate\<close> (called by \<^verbatim>\<open>Reserve\<close>, \<^verbatim>\<open>PushBack\<close> and \<^verbatim>\<open>EmplaceBack\<close>) and the transfer
  inside \<^verbatim>\<open>Emplace\<close> around the position \<open>p\<close> return with \<open>ys\<close> constructed in the new
  block and the old arena holding \<open>zs\<close>. On the copy branch the old arena still holds
  \<open>xs\<close> in whatever state the transfer leaves, whether it completes or throws. And the
  growth paths as a whole return with the vector in the newly allocated arena holding
  \<open>ys\<close> after \<^verbatim>\<open>Reserve\<close>, \<open>ys @ [y]\<close> after \<^verbatim>\<open>PushBack\<close> and \<^verbatim>\<open>EmplaceBack\<close> of \<open>y\<close>, and
  \<open>ys\<close> with \<open>y\<close> inserted at \<open>p\<close> after \<^verbatim>\<open>Emplace\<close>.
\<close>

theorem growth_transfers_by_move_or_copy:
  assumes tr: "transfer_spec ops xs ys zs"
    and v: "vecs st this = Some v" and hv: "holds st v xs"
    and fresh: "blocks st (next_addr st) = None"
  shows "(buffer' nd = Some b \<and> blocks st b = Some bblk \<and> buffer' (data' v) \<noteq> Some b \<longrightarrow>
            (length xs \<le> length bblk \<longrightarrow>
               (\<exists>st'. Reallocate ops this nd st = Done () st' \<and>
                  blocks st' b = Some (overwrite 0 (map Obj ys) bblk) \<and> holds st' v zs)) \<and>
            (p \<le> length xs \<and> length xs < length bblk \<and> length xs < 2 ^ 64 \<longrightarrow>
               (\<exists>st'. Emplace_transfer ops v (int p) nd st = Done () st' \<and>
                  blocks st' b = Some (overwrite (Suc p) (map Obj (drop p ys))
                                        (overwrite 0 (map Obj (take p ys)) bblk)) \<and>
                  holds st' v zs))) \<and>
         (\<not> nothrow_move_constructible ops \<and> copy_constructible ops \<and> buffer' (data' v) \<noteq> buffer' nd \<longrightarrow>
            (\<forall>st'. final_state (Reallocate ops this nd st) = Some st' \<longrightarrow> holds st' v xs) \<and>
            (\<forall>st'. final_state (Emplace_transfer ops v pos_num nd st) = Some st' \<longrightarrow> holds st' v xs)) \<and>
         (capacity' (data' v) < k \<and> k \<le> free_slots st \<longrightarrow>
            (\<exists>st' v'. Reserve ops this k st = Done () st' \<and> vecs st' this = Some v' \<and>
               data' v' = \<lparr>buffer' = Some (next_addr st), capacity' = k\<rparr> \<and> holds st' v' ys)) \<and>
         (capacity' (data' v) = length xs \<and> length xs < 2 ^ 63 \<and> max 1 (2 * length xs) \<le> free_slots st \<longrightarrow>
            (\<exists>st' v'. PushBack_with ops this (Some y) st = Done () st' \<and> vecs st' this = Some v' \<and>
               buffer' (data' v') = Some (next_addr st) \<and> holds st' v' (ys @ [y])) \<and>
            (\<exists>q st' v'. EmplaceBack ops this (Some y) st = Done q st' \<and> vecs st' this = Some v' \<and>
               buffer' (data' v') = Some (next_addr st) \<and> holds st' v' (ys @ [y])) \<and>
            (p \<le> length xs \<and> p < 2 ^ 31 \<longrightarrow>
               (\<exists>q st' v'. Emplace ops this p (Some y) st = Done q st' \<and> vecs st' this = Some v' \<and>
                  buffer' (data' v') = Some (next_addr st) \<and> holds st' v' (take p ys @ y # drop p ys))))"
proof (intro conjI impI allI; (elim conjE)?)
  assume nd: "buffer' nd = Some b" "blocks st b = Some bblk" "buffer' (data' v) \<noteq> Some b"
    and fits: "length xs \<le> length bblk"
  from Reallocate_transferred [OF tr v hv nd fits]
  show "\<exists>st'. Reallocate ops this nd st = Done () st' \<and>
          blocks st' b = Some (overwrite 0 (map Obj ys) bblk) \<and> holds st' v zs"
    by blast
next
  assume nd: "buffer' nd = Some b" "blocks st b = Some bblk" "buffer' (data' v) \<noteq> Some b"
    and p: "p \<le> length xs" "length xs < length bblk" "length xs < 2 ^ 64"
  from Emplace_transfer_transferred [OF tr hv nd p]
  show "\<exists>st'. Emplace_transfer ops v (int p) nd st = Done () st' \<and>
          blocks st' b = Some (overwrite (Suc p) (map Obj (drop p ys))
                                (overwrite 0 (map Obj (take p ys)) bblk)) \<and>
          holds st' v zs"
    by blast
next
  fix st'
  assume "\<not> nothrow_move_constructible ops" "copy_constructible ops"
    "buffer' (data' v) \<noteq> buffer' nd" "final_state (Reallocate ops this nd st) = Some st'"
  then show "holds st' v xs"
    using Reallocate_copy_keeps_source [OF _ hv, of ops nd this st'] by blast
next
  fix st'
  assume "\<not> nothrow_move_constructible ops" "copy_constructible ops"
    "buffer' (data' v) \<noteq> buffer' nd" "final_state (Emplace_transfer ops v pos_num nd st) = Some st'"
  then show "holds st' v xs"
    using Emplace_transfer_copy_keeps_source [OF _ hv, of ops nd pos_num st'] by blast
next
  assume "capacity' (data' v) < k" "k \<le> free_slots st"
  from Reserve_transferred [OF tr v hv fresh this]
  show "\<exists>st' v'. Reserve ops this k st = Done () st' \<and> vecs st' this = Some v' \<and>
          data' v' = \<lparr>buffer' = Some (next_addr st), capacity' = k\<rparr> \<and> holds st' v' ys"
    by force
next
  assume "capacity' (data' v) = length xs" "length xs < 2 ^ 63" "max 1 (2 * length xs) \<le> free_slots st"
  from PushBack_with_transferred [OF tr v hv fresh this]
  show "\<exists>st' v'. PushBack_with ops this (Some y) st = Done () st' \<and> vecs st' this = Some v' \<and>
          buffer' (data' v') = Some (next_addr st) \<and> holds st' v' (ys @ [y])"
    by force
next
  assume "capacity' (data' v) = length xs" "length xs < 2 ^ 63" "max 1 (2 * length xs) \<le> free_slots st"
  from EmplaceBack_transferred [OF tr v hv fresh this]
  show "\<exists>q st' v'. EmplaceBack ops this (Some y) st = Done q st' \<and> vecs st' this = Some v' \<and>
          buffer' (data' v') = Some (next_addr st) \<and> holds st' v' (ys @ [y])"
    by force
next
  assume "capacity' (data' v) = length xs" "length xs < 2 ^ 63" "max 1 (2 * length xs) \<le> free_slots st"
    "p \<le> length xs" "p < 2 ^ 31"
  from Emplace_transferred [OF tr v hv fresh this]
  show "\<exists>q st' v'. Emplace ops this p (Some y) st = Done q st' \<and> vecs st' this = Some v' \<and>
          buffer' (data' v') = Some (next_addr st) \<and> holds st' v' (take p ys @ y # drop p ys)"
    by force
qed

theorem growth_transfers_by_move_or_copy_witness:
  "(\<exists>st'. Reallocate fragile_ops 0 \<lparr>buffer' = Some 2, capacity' = 4\<rparr> st_12_raw4 = Done () st' \<and>
      blocks st' 2 = Some [Obj 1, Obj 2, Raw, Raw] \<and> blocks st' 1 = Some [Obj 0, Obj 0]) \<and>
   (\<exists>st'. Reallocate checked_copy_ops 0 \<lparr>buffer' = Some 2, capacity' = 4\<rparr> st_12_raw4 = Done () st' \<and>
      blocks st' 2 = Some [Obj 1, Obj 2, Raw, Raw] \<and> blocks st' 1 = Some [Obj 1, Obj 2]) \<and>
   (\<exists>q st' v'. Emplace checked_copy_ops 0 1 (Some 3) st_12 = Done q st' \<and> vecs st' 0 = Some v' \<and>
      holds st' v' [1, 3, 2])"
proof -
  let ?v = "\<lparr>data' = \<lparr>buffer' = Some 1, capacity' = 2\<rparr>, size' = 2\<rparr>"
  let ?nd = "\<lparr>buffer' = Some 2, capacity' = 4\<rparr>"
  have v: "vecs st_12_raw4 0 = Some ?v" and hv: "holds st_12_raw4 ?v [1, 2]"
    and fresh: "blocks st_12_raw4 (next_addr st_12_raw4) = None"
    by (simp_all add: st_12_raw4_def holds_def)
  have v': "vecs st_12 0 = Some ?v" and hv': "holds st_12 ?v [1, 2]"
    and fresh': "blocks st_12 (next_addr st_12) = None"
    by (simp_all add: st_12_def holds_def)
  have trm: "transfer_spec fragile_ops [1, 2] [1, 2] [0, 0]"
    and trc: "transfer_spec checked_copy_ops [1, 2] [1, 2] [1, 2]"
    by (simp_all add: transfer_spec_def fragile_ops_def checked_copy_ops_def)
  have nd: "buffer' ?nd = Some 2 \<and> blocks st_12_raw4 2 = Some [Raw, Raw, Raw, Raw] \<and>
      buffer' (data' ?v) \<noteq> Some 2"
    by (simp add: st_12_raw4_def)
  have fits: "length [1, 2 :: int] \<le> length [Raw, Raw, Raw, Raw :: int slot]" by simp
  have blk: "overwrite 0 (map Obj [1, 2 :: int]) [Raw, Raw, Raw, Raw] = [Obj 1, Obj 2, Raw, Raw]"
    by (simp add: overwrite_def)
  have old: "\<And>s zs. holds s ?v zs \<Longrightarrow> blocks s 1 = Some (map Obj zs)"
    by (simp add: holds_def)
  from growth_transfers_by_move_or_copy [OF trm v hv fresh, THEN conjunct1, THEN mp, OF nd,
      THEN conjunct1, THEN mp, OF fits]
  obtain s1 where s1: "Reallocate fragile_ops 0 ?nd st_12_raw4 = Done () s1"
      "blocks s1 2 = Some (overwrite 0 (map Obj [1, 2]) [Raw, Raw, Raw, Raw])" "holds s1 ?v [0, 0]"
    by blast
  from s1(1) s1(2) [unfolded blk] old [OF s1(3)]
  have 1: "\<exists>st'. Reallocate fragile_ops 0 ?nd st_12_raw4 = Done () st' \<and>
      blocks st' 2 = Some [Obj 1, Obj 2, Raw, Raw] \<and> blocks st' 1 = Some [Obj 0, Obj 0]"
    by simp
  from growth_transfers_by_move_or_copy [OF trc v hv fresh, THEN conjunct1, THEN mp, OF nd,
      THEN conjunct1, THEN mp, OF fits]
  obtain s2 where s2: "Reallocate checked_copy_ops 0 ?nd st_12_raw4 = Done () s2"
      "blocks s2 2 = Some (overwrite 0 (map Obj [1, 2]) [Raw, Raw, Raw, Raw])" "holds s2 ?v [1, 2]"
    by blast
  from s2(1) s2(2) [unfolded blk] old [OF s2(3)]
  have 2: "\<exists>st'. Reallocate checked_copy_ops 0 ?nd st_12_raw4 = Done () st' \<and>
      blocks st' 2 = Some [Obj 1, Obj 2, Raw, Raw] \<and> blocks st' 1 = Some [Obj 1, Obj 2]"
    by simp
  have full: "capacity' (data' ?v) = length [1, 2 :: int] \<and> length [1, 2 :: int] < 2 ^ 63 \<and>
      max 1 (2 * length [1, 2 :: int]) \<le> free_slots st_12"
    by (simp add: st_12_def)
  have pos: "1 \<le> length [1, 2 :: int] \<and> (1 :: nat) < 2 ^ 31" by simp
  from growth_transfers_by_move_or_copy [OF trc v' hv' fresh', THEN conjunct2, THEN conjunct2,
      THEN conjunct2, THEN mp, OF full, THEN conjunct2, THEN conjunct2, THEN mp, OF pos]
  obtain q s3 w where s3: "Emplace checked_copy_ops 0 1 (Some 3) st_12 = Done q s3"
      "vecs s3 0 = Some w" "holds s3 w (take 1 [1, 2] @ 3 # drop 1 [1, 2])"
    by blast
  from s3 have 3: "\<exists>q st' v'. Emplace checked_copy_ops 0 1 (Some 3) st_12 = Done q st' \<and>
      vecs st' 0 = Some v' \<and> holds st' v' [1, 3, 2]"
    by auto
  from 1 2 3 show ?thesis by blast
qed

end
